theory Spec2Isabelle
  imports Complex_Main "HOL-Library.Multiset" "HOL-Library.AList"
begin

section \<open>Word2vec with negative sampling: the data preparation and the loss\<close>

text \<open>
  The notebook is a linear script over a few global variables. Each cell that the
  properties below are about is embedded as a function of the globals it reads:
  the corpus is a list of documents, a document a list of tokens, a token a string.
  Python floats are embedded as real numbers, Python integers as \<open>int\<close> or, where the
  source only produces list positions and counts, as \<open>nat\<close>. The pseudo-random
  sources (\<open>random.random\<close>, \<open>random.shuffle\<close>, \<open>numpy.random.multinomial\<close>) are
  explicit arguments.
\<close>

type_synonym token = string
type_synonym document = "token list"
type_synonym corpus = "document list"

datatype error = KeyError | ValueError | ZeroDivisionError | IndexError | RuntimeError

subsection \<open>Context pairs\<close>

text \<open>
  The cell that builds \<open>context_tuple_list\<close>:
  \<^verbatim>\<open>
  for text in tqdm(corpus):
      for i, word in enumerate(text):
          first_context_word_index = max(0,i-w)
          last_context_word_index = min(i+w, len(text))
          for j in range(first_context_word_index, last_context_word_index):
              if i!=j:
                  context_tuple_list.append((word, text[j], next(negative_samples)))
  \<close>
  The generator \<open>negative_samples\<close> is an argument: its state \<open>g\<close> and the function
  \<open>nxt\<close> that \<open>next\<close> applies to it. The state of the three loops is the list built so
  far and the generator. Since \<open>first_context_word_index\<close> is never negative, the
  positions of \<open>range(first, last)\<close> are the naturals from \<open>nat first\<close> up to and
  excluding \<open>nat last\<close> (there are none when \<open>last \<le> first\<close>), all of them below
  \<open>len(text)\<close>, so that \<open>text[j]\<close> never raises.
\<close>

fun window_loop ::
  "('g \<Rightarrow> 'n \<times> 'g) \<Rightarrow> document \<Rightarrow> nat \<Rightarrow> token \<Rightarrow> nat list \<Rightarrow>
   (token \<times> token \<times> 'n) list \<times> 'g \<Rightarrow> (token \<times> token \<times> 'n) list \<times> 'g" where
  "window_loop nxt text i word [] st = st"
| "window_loop nxt text i word (j # js) (acc, g) =
     (if i \<noteq> j
      then (case nxt g of (neg, g') \<Rightarrow>
              window_loop nxt text i word js (acc @ [(word, text ! j, neg)], g'))
      else window_loop nxt text i word js (acc, g))"

fun position_loop ::
  "('g \<Rightarrow> 'n \<times> 'g) \<Rightarrow> int \<Rightarrow> document \<Rightarrow> (nat \<times> token) list \<Rightarrow>
   (token \<times> token \<times> 'n) list \<times> 'g \<Rightarrow> (token \<times> token \<times> 'n) list \<times> 'g" where
  "position_loop nxt w text [] st = st"
| "position_loop nxt w text ((i, word) # rest) st =
     (let first_context_word_index = max 0 (int i - w);
          last_context_word_index = min (int i + w) (int (length text))
      in position_loop nxt w text rest
           (window_loop nxt text i word
              [nat first_context_word_index ..< nat last_context_word_index] st))"

fun text_loop ::
  "('g \<Rightarrow> 'n \<times> 'g) \<Rightarrow> int \<Rightarrow> corpus \<Rightarrow>
   (token \<times> token \<times> 'n) list \<times> 'g \<Rightarrow> (token \<times> token \<times> 'n) list \<times> 'g" where
  "text_loop nxt w [] st = st"
| "text_loop nxt w (text # texts) st =
     text_loop nxt w texts (position_loop nxt w text (enumerate 0 text) st)"

definition context_tuple_list ::
  "('g \<Rightarrow> 'n \<times> 'g) \<Rightarrow> 'g \<Rightarrow> corpus \<Rightarrow> int \<Rightarrow> (token \<times> token \<times> 'n) list \<times> 'g" where
  "context_tuple_list nxt g corpus w = text_loop nxt w corpus ([], g)"

text \<open>The (target, context) part of the emitted tuples.\<close>

definition pairs_of :: "(token \<times> token \<times> 'n) list \<Rightarrow> (token \<times> token) list" where
  "pairs_of tuples = map (\<lambda>(target, ctx, neg). (target, ctx)) tuples"

text \<open>
  The generator as the specification words it: the window of position \<open>i\<close> in a
  document of \<open>n\<close> tokens is the positions \<open>j\<close> of \<open>[max(0, i-w), min(n, i+w))\<close> other
  than \<open>i\<close>, in increasing order; a document yields its positions in order, each with
  its window; a corpus yields its documents in order.
\<close>

definition spec_window :: "int \<Rightarrow> nat \<Rightarrow> nat \<Rightarrow> nat list" where
  "spec_window w n i =
     filter (\<lambda>j. j \<noteq> i) [nat (max 0 (int i - w)) ..< nat (min (int n) (int i + w))]"

definition spec_document_pairs :: "int \<Rightarrow> document \<Rightarrow> (token \<times> token) list" where
  "spec_document_pairs w text =
     concat (map (\<lambda>i. map (\<lambda>j. (text ! i, text ! j)) (spec_window w (length text) i))
                 [0 ..< length text])"

definition spec_context_pairs :: "int \<Rightarrow> corpus \<Rightarrow> (token \<times> token) list" where
  "spec_context_pairs w corpus = concat (map (spec_document_pairs w) corpus)"

text \<open>A generator that yields the same negatives at every \<open>next\<close> and has no state.\<close>

definition const_generator :: "'n \<Rightarrow> unit \<Rightarrow> 'n \<times> unit" where
  "const_generator neg g = (neg, g)"

subsection \<open>Counting words\<close>

text \<open>
  \<open>dict(Counter(list(itertools.chain.from_iterable(corpus))))\<close>: a dictionary keeps
  its keys in the order of their first insertion, so the counts are an association
  list: counting a word that has an entry replaces the entry where it stands, counting
  a new word adds an entry at the end.
\<close>

definition counter_add :: "(token \<times> nat) list \<Rightarrow> token \<Rightarrow> (token \<times> nat) list" where
  "counter_add counts word =
     AList.update word (case map_of counts word of None \<Rightarrow> 1 | Some c \<Rightarrow> c + 1) counts"

definition Counter :: "token list \<Rightarrow> (token \<times> nat) list" where
  "Counter ws = foldl counter_add [] ws"

subsection \<open>Subsampling of frequent words\<close>

text \<open>
  \<^verbatim>\<open>
  def subsample_frequent_words(corpus):
      filtered_corpus = []
      word_counts = dict(Counter(list(itertools.chain.from_iterable(corpus))))
      sum_word_counts = sum(list(word_counts.values()))
      word_counts = {word: word_counts[word]/float(sum_word_counts) for word in word_counts}
      for text in corpus:
          filtered_corpus.append([])
          for word in text:
              if random.random() < (1+math.sqrt(word_counts[word] * 1e3)) * 1e-3 / float(word_counts[word]):
                  filtered_corpus[-1].append(word)
      return filtered_corpus
  \<close>
  The global generator behind \<open>random.random\<close> is the sequence \<open>rnd\<close> of the values it
  will return and the number \<open>n\<close> of values already taken. A missing key and a
  division by zero are results of the model, as they are exceptions of Python.
\<close>

definition relative_frequencies :: "(token \<times> nat) list \<Rightarrow> error + (token \<times> real) list" where
  "relative_frequencies word_counts =
     (let sum_word_counts = sum_list (map snd word_counts)
      in if word_counts \<noteq> [] \<and> sum_word_counts = 0 then Inl ZeroDivisionError
         else Inr (map (\<lambda>(word, c). (word, real c / real sum_word_counts)) word_counts))"

text \<open>The right-hand side of the comparison, for a word of relative frequency \<open>p\<close>.\<close>

definition keep_probability :: "real \<Rightarrow> real" where
  "keep_probability p = (1 + sqrt (p * 1000)) * (1 / 1000) / p"

fun word_loop ::
  "(nat \<Rightarrow> real) \<Rightarrow> (token \<times> real) list \<Rightarrow> token list \<Rightarrow> token list \<times> nat \<Rightarrow>
   error + token list \<times> nat" where
  "word_loop rnd word_counts [] st = Inr st"
| "word_loop rnd word_counts (word # rest) (kept, n) =
     (case map_of word_counts word of
        None \<Rightarrow> Inl KeyError
      | Some p \<Rightarrow>
          if p = 0 then Inl ZeroDivisionError
          else if rnd n < keep_probability p
               then word_loop rnd word_counts rest (kept @ [word], Suc n)
               else word_loop rnd word_counts rest (kept, Suc n))"

fun filter_loop ::
  "(nat \<Rightarrow> real) \<Rightarrow> (token \<times> real) list \<Rightarrow> corpus \<Rightarrow> corpus \<times> nat \<Rightarrow> error + corpus \<times> nat" where
  "filter_loop rnd word_counts [] st = Inr st"
| "filter_loop rnd word_counts (text # texts) (filtered_corpus, n) =
     (case word_loop rnd word_counts text ([], n) of
        Inl e \<Rightarrow> Inl e
      | Inr (kept, n') \<Rightarrow> filter_loop rnd word_counts texts (filtered_corpus @ [kept], n'))"

definition subsample_frequent_words ::
  "(nat \<Rightarrow> real) \<Rightarrow> nat \<Rightarrow> corpus \<Rightarrow> error + corpus \<times> nat" where
  "subsample_frequent_words rnd n corpus =
     (case relative_frequencies (Counter (concat corpus)) of
        Inl e \<Rightarrow> Inl e
      | Inr word_counts \<Rightarrow> filter_loop rnd word_counts corpus ([], n))"

text \<open>
  The subsampler as the specification words it. The relative frequency of a word is
  its number of occurrences in the corpus over the number of tokens of the corpus; the
  occurrence at position \<open>i\<close> of a document whose first token takes draw number \<open>n\<close>
  takes draw number \<open>n + i\<close>, and is kept when that draw is below the keep-probability
  of its word; the first token of document \<open>k\<close> takes the draw that follows those of the
  documents before it.
\<close>

definition relative_frequency :: "corpus \<Rightarrow> token \<Rightarrow> real" where
  "relative_frequency corpus word =
     real (count_list (concat corpus) word) / real (length (concat corpus))"

definition spec_keep_document :: "(nat \<Rightarrow> real) \<Rightarrow> corpus \<Rightarrow> nat \<Rightarrow> document \<Rightarrow> document" where
  "spec_keep_document rnd corpus n text =
     map fst (filter (\<lambda>(word, u). u < keep_probability (relative_frequency corpus word))
                     (zip text (map rnd [n ..< n + length text])))"

definition spec_subsample :: "(nat \<Rightarrow> real) \<Rightarrow> nat \<Rightarrow> corpus \<Rightarrow> corpus" where
  "spec_subsample rnd n corpus =
     map (\<lambda>k. spec_keep_document rnd corpus (n + length (concat (take k corpus))) (corpus ! k))
         [0 ..< length corpus]"

text \<open>
  A sequence of draws for the examples below: the first is \<open>0.5\<close>, the others are 0.
\<close>

definition example_draws :: "nat \<Rightarrow> real" where
  "example_draws i = (if i = 0 then 1 / 2 else 0)"

subsection \<open>The vocabulary\<close>

text \<open>
  \<^verbatim>\<open>
  corpus = subsample_frequent_words(corpus)
  vocabulary = set(itertools.chain.from_iterable(corpus))
  word_to_index = {w: idx for (idx, w) in enumerate(vocabulary)}
  index_to_word = {idx: w for (idx, w) in enumerate(vocabulary)}
  \<close>
  Python does not say in which order a set is iterated, only that each element comes
  once and that two iterations of an unchanged set agree. The order is the argument
  \<open>iteration\<close>: a function from the tokens put into the set to the list that iterating
  the set yields. A dictionary comprehension stores its items one after the other.
\<close>

definition dict_of :: "('k \<times> 'v) list \<Rightarrow> ('k \<rightharpoonup> 'v)" where
  "dict_of items = foldl (\<lambda>d (k, v). d(k \<mapsto> v)) Map.empty items"

record vocabulary_cell =
  corpus_of :: corpus
  vocabulary :: "token list"
  word_to_index :: "token \<rightharpoonup> nat"
  index_to_word :: "nat \<rightharpoonup> token"
  draws_taken :: nat

definition build_vocabulary ::
  "(token list \<Rightarrow> token list) \<Rightarrow> (nat \<Rightarrow> real) \<Rightarrow> nat \<Rightarrow> corpus \<Rightarrow> error + vocabulary_cell" where
  "build_vocabulary iteration rnd n corpus0 =
     (case subsample_frequent_words rnd n corpus0 of
        Inl e \<Rightarrow> Inl e
      | Inr (corpus, n') \<Rightarrow>
          let vocabulary = iteration (concat corpus)
          in Inr \<lparr> corpus_of = corpus,
                   vocabulary = vocabulary,
                   word_to_index = dict_of (map (\<lambda>(idx, w). (w, idx)) (enumerate 0 vocabulary)),
                   index_to_word = dict_of (map (\<lambda>(idx, w). (idx, w)) (enumerate 0 vocabulary)),
                   draws_taken = n' \<rparr>)"

text \<open>What iterating a set may yield: every element once, in some order.\<close>

definition set_iteration :: "(token list \<Rightarrow> token list) \<Rightarrow> bool" where
  "set_iteration iteration = (\<forall>ws. distinct (iteration ws) \<and> set (iteration ws) = set ws)"

subsection \<open>Negative sampling\<close>

text \<open>
  \<^verbatim>\<open>
  def sample_negative(sample_size):
      sample_probability = {}
      word_counts = dict(Counter(list(itertools.chain.from_iterable(corpus))))
      normalizing_factor = sum([v**0.75 for v in word_counts.values()])
      for word in word_counts:
          sample_probability[word] = word_counts[word]**0.75 / normalizing_factor
      words = np.array(list(word_counts.keys()))
      while True:
          word_list = []
          sampled_index = np.array(multinomial(sample_size, list(sample_probability.values())))
          for index, count in enumerate(sampled_index):
              for _ in range(count):
                   word_list.append(words[index])
          yield word_list
  \<close>
  The function is a generator: the lines before the loop run at the first \<open>next\<close>, with
  the value that the global \<open>corpus\<close> has then, and the locals \<open>sample_probability\<close>
  and \<open>words\<close> live as long as the generator. \<open>normalizing_factor\<close> is a sum of
  positive numbers whenever there is a word to divide for. The outcomes of
  \<open>multinomial\<close> are the argument \<open>mn\<close>: call number, number of trials and
  probabilities give the vector of counts, which numpy makes as long as the vector of
  probabilities, so that \<open>index\<close> is a position of \<open>words\<close>.
\<close>

record sampler =
  sample_probability :: "(token \<times> real) list"
  words :: "token list"

datatype generator = Created | Suspended sampler

definition sample_negative_setup :: "corpus \<Rightarrow> sampler" where
  "sample_negative_setup corpus =
     (let word_counts = Counter (concat corpus);
          normalizing_factor = sum_list (map (\<lambda>v. real v powr 0.75) (map snd word_counts))
      in \<lparr> sample_probability =
             map (\<lambda>(word, v). (word, real v powr 0.75 / normalizing_factor)) word_counts,
           words = map fst word_counts \<rparr>)"

definition word_list_of :: "token list \<Rightarrow> nat list \<Rightarrow> token list" where
  "word_list_of ws sampled_index =
     concat (map (\<lambda>(index, count). replicate count (ws ! index)) (enumerate 0 sampled_index))"

definition sample_negative_next ::
  "(nat \<Rightarrow> nat \<Rightarrow> real list \<Rightarrow> nat list) \<Rightarrow> nat \<Rightarrow> corpus \<Rightarrow> generator \<times> nat \<Rightarrow>
   token list \<times> generator \<times> nat" where
  "sample_negative_next mn sample_size corpus st =
     (case st of (gen, calls) \<Rightarrow>
        let s = (case gen of Created \<Rightarrow> sample_negative_setup corpus | Suspended s \<Rightarrow> s);
            sampled_index = mn calls sample_size (map snd (sample_probability s))
        in (word_list_of (words s) sampled_index, Suspended s, Suc calls))"

text \<open>
  A run of draws from one generator: the list gives, for each \<open>next\<close> in turn, the
  value that the global \<open>corpus\<close> has at that moment.
\<close>

fun draws ::
  "(nat \<Rightarrow> nat \<Rightarrow> real list \<Rightarrow> nat list) \<Rightarrow> nat \<Rightarrow> corpus list \<Rightarrow> generator \<times> nat \<Rightarrow>
   token list list \<times> generator \<times> nat" where
  "draws mn sample_size [] st = ([], st)"
| "draws mn sample_size (corpus # later) st =
     (case sample_negative_next mn sample_size corpus st of
        (word_list, st') \<Rightarrow>
          (case draws mn sample_size later st' of
             (word_lists, st'') \<Rightarrow> (word_list # word_lists, st'')))"

text \<open>
  The notebook runs the subsampling cell, which overwrites the global \<open>corpus\<close>, before
  it creates the generator and draws from it.
\<close>

definition notebook_sampler :: "(nat \<Rightarrow> real) \<Rightarrow> corpus \<Rightarrow> error + sampler" where
  "notebook_sampler rnd corpus0 =
     (case subsample_frequent_words rnd 0 corpus0 of
        Inl e \<Rightarrow> Inl e
      | Inr (corpus, n) \<Rightarrow> Inr (sample_negative_setup corpus))"

text \<open>
  The distribution as the specification words it: the weight of a word is its count
  to the power 0.75, over the sum of the weights of all words of the frequency table.
\<close>

definition spec_negative_probability :: "corpus \<Rightarrow> token \<Rightarrow> real" where
  "spec_negative_probability corpus word =
     real (count_list (concat corpus) word) powr 0.75 /
     (\<Sum>v \<in> set (concat corpus). real (count_list (concat corpus) v) powr 0.75)"

subsection \<open>The model and its loss\<close>

text \<open>
  \<^verbatim>\<open>
  def forward(self, target_word, context_word, negative_example):
      emb_target = self.embeddings_target(target_word)
      emb_context = self.embeddings_context(context_word)
      emb_product = torch.mul(emb_target, emb_context)
      emb_product = torch.sum(emb_product, dim=1)
      out = torch.sum(F.logsigmoid(emb_product))
      emb_negative = self.embeddings_context(negative_example)
      emb_product = torch.bmm(emb_negative, emb_target.unsqueeze(2))
      emb_product = torch.sum(emb_product, dim=1)
      out += torch.sum(F.logsigmoid(-emb_product))
      return -out
  \<close>
  An embedding table is the list of its rows, a tensor the (nested) list of its
  entries. The arguments are those of a batch as \<open>get_batches\<close> builds it: \<open>B\<close> targets,
  \<open>B\<close> contexts and \<open>B\<close> rows of \<open>k\<close> negatives; other shapes are a \<open>RuntimeError\<close> of
  the model (torch broadcasts some of them, which is not modelled). An index that is
  not a row of the table is an \<open>IndexError\<close>.
\<close>

record Word2Vec =
  embeddings_target :: "real list list"
  embeddings_context :: "real list list"

definition sigmoid :: "real \<Rightarrow> real" where
  "sigmoid x = 1 / (1 + exp (- x))"

definition logsigmoid :: "real \<Rightarrow> real" where
  "logsigmoid x = ln (sigmoid x)"

definition embedding :: "real list list \<Rightarrow> nat \<Rightarrow> error + real list" where
  "embedding table idx = (if idx < length table then Inr (table ! idx) else Inl IndexError)"

fun embedding_rows :: "real list list \<Rightarrow> nat list \<Rightarrow> error + real list list" where
  "embedding_rows table [] = Inr []"
| "embedding_rows table (idx # idxs) =
     (case embedding table idx of
        Inl e \<Rightarrow> Inl e
      | Inr row \<Rightarrow> (case embedding_rows table idxs of
                     Inl e \<Rightarrow> Inl e
                   | Inr rows \<Rightarrow> Inr (row # rows)))"

fun embedding_rows2 :: "real list list \<Rightarrow> nat list list \<Rightarrow> error + real list list list" where
  "embedding_rows2 table [] = Inr []"
| "embedding_rows2 table (idxs # rest) =
     (case embedding_rows table idxs of
        Inl e \<Rightarrow> Inl e
      | Inr rows \<Rightarrow> (case embedding_rows2 table rest of
                      Inl e \<Rightarrow> Inl e
                    | Inr rowss \<Rightarrow> Inr (rows # rowss)))"

text \<open>\<open>torch.mul\<close> of two rows followed by the sum along the row.\<close>

definition mul_sum :: "real list \<Rightarrow> real list \<Rightarrow> real" where
  "mul_sum xs ys = sum_list (map2 (*) xs ys)"

text \<open>
  \<open>torch.bmm\<close> of the \<open>k\<close> by \<open>D\<close> matrix of one batch entry with its target as a
  column: one product per negative; \<open>torch.sum(..., dim=1)\<close> then adds them up.
\<close>

definition bmm_entry :: "real list list \<Rightarrow> real list \<Rightarrow> real list" where
  "bmm_entry negatives target = map (\<lambda>negative. mul_sum negative target) negatives"

definition rectangular :: "'a list list \<Rightarrow> bool" where
  "rectangular rows = list_all (\<lambda>row. length row = length (hd rows)) rows"

definition forward ::
  "Word2Vec \<Rightarrow> nat list \<Rightarrow> nat list \<Rightarrow> nat list list \<Rightarrow> error + real" where
  "forward net target_word context_word negative_example =
     (if length context_word = length target_word \<and>
         length negative_example = length target_word \<and> rectangular negative_example
      then
        case embedding_rows (embeddings_target net) target_word of
          Inl e \<Rightarrow> Inl e
        | Inr emb_target \<Rightarrow>
       (case embedding_rows (embeddings_context net) context_word of
          Inl e \<Rightarrow> Inl e
        | Inr emb_context \<Rightarrow>
          let emb_product = map2 mul_sum emb_target emb_context;
              out = sum_list (map logsigmoid emb_product)
          in (case embedding_rows2 (embeddings_context net) negative_example of
                Inl e \<Rightarrow> Inl e
              | Inr emb_negative \<Rightarrow>
                  let emb_product = map2 bmm_entry emb_negative emb_target;
                      emb_product = map sum_list emb_product;
                      out = out + sum_list (map (\<lambda>x. logsigmoid (- x)) emb_product)
                  in Inr (- out)))
      else Inl RuntimeError)"

text \<open>
  The loss as the specification words it, for a batch of triples of rows: minus the
  sum over the batch of the log-sigmoid of the positive score, minus the sum over the
  batch and over the negatives of the log-sigmoid of minus the negative score.
\<close>

definition spec_loss :: "(real list \<times> real list \<times> real list list) list \<Rightarrow> real" where
  "spec_loss batch =
     - (\<Sum>(target, ctx, negatives) \<leftarrow> batch. ln (sigmoid (mul_sum target ctx)))
     - (\<Sum>(target, ctx, negatives) \<leftarrow> batch.
          \<Sum>negative \<leftarrow> negatives. ln (sigmoid (- mul_sum negative target)))"

definition spec_forward ::
  "Word2Vec \<Rightarrow> (nat \<times> nat \<times> nat list) list \<Rightarrow> real" where
  "spec_forward net batch =
     spec_loss (map (\<lambda>(t, c, ns). (embeddings_target net ! t, embeddings_context net ! c,
                                     map (\<lambda>n. embeddings_context net ! n) ns)) batch)"

text \<open>
  A model with a vocabulary of two words and embeddings of dimension 1, for the
  examples below.
\<close>

definition example_net :: Word2Vec where
  "example_net = \<lparr> embeddings_target = [[1], [0]], embeddings_context = [[1], [-1]] \<rparr>"

subsection \<open>Early stopping\<close>

text \<open>
  \<^verbatim>\<open>
  class EarlyStopping():
      def __init__(self, patience=5, min_percent_gain=0.1):
          self.patience = patience
          self.loss_list = []
          self.min_percent_gain = min_percent_gain / 100.

      def update_loss(self, loss):
          self.loss_list.append(loss)
          if len(self.loss_list) > self.patience:
              del self.loss_list[0]

      def stop_training(self):
          if len(self.loss_list) == 1:
              return False
          gain = (max(self.loss_list) - min(self.loss_list)) / max(self.loss_list)
          print("Loss gain: {}%".format(round(100*gain,2)))
          if gain < self.min_percent_gain:
              return True
          else:
              return False
  \<close>
  \<open>max\<close> and \<open>min\<close> of an empty list raise \<open>ValueError\<close>, and a Python float divided by
  zero raises \<open>ZeroDivisionError\<close> (a numpy number gives \<open>nan\<close> or an infinity there
  instead: the properties below are about windows whose maximum is not zero). The
  printed line is not part of the model.
\<close>

record EarlyStopping =
  patience :: int
  loss_list :: "real list"
  min_percent_gain :: real

definition EarlyStopping_init :: "int \<Rightarrow> real \<Rightarrow> EarlyStopping" where
  "EarlyStopping_init p g = \<lparr> patience = p, loss_list = [], min_percent_gain = g / 100 \<rparr>"

definition update_loss :: "EarlyStopping \<Rightarrow> real \<Rightarrow> EarlyStopping" where
  "update_loss self loss =
     (let appended = loss_list self @ [loss]
      in if int (length appended) > patience self
         then self \<lparr> loss_list := tl appended \<rparr>
         else self \<lparr> loss_list := appended \<rparr>)"

definition py_max :: "real list \<Rightarrow> error + real" where
  "py_max xs = (case xs of [] \<Rightarrow> Inl ValueError | x # rest \<Rightarrow> Inr (foldl max x rest))"

definition py_min :: "real list \<Rightarrow> error + real" where
  "py_min xs = (case xs of [] \<Rightarrow> Inl ValueError | x # rest \<Rightarrow> Inr (foldl min x rest))"

definition stop_training :: "EarlyStopping \<Rightarrow> error + bool" where
  "stop_training self =
     (if length (loss_list self) = 1 then Inr False
      else case py_max (loss_list self) of
             Inl e \<Rightarrow> Inl e
           | Inr mx \<Rightarrow>
          (case py_min (loss_list self) of
             Inl e \<Rightarrow> Inl e
           | Inr mn \<Rightarrow>
               if mx = 0 then Inl ZeroDivisionError
               else let gain = (mx - mn) / mx
                    in if gain < min_percent_gain self then Inr True else Inr False))"

text \<open>The state after a sequence of epoch losses has been recorded, oldest first.\<close>

definition record_losses :: "EarlyStopping \<Rightarrow> real list \<Rightarrow> EarlyStopping" where
  "record_losses self losses = foldl update_loss self losses"

text \<open>
  The stop decision as the specification words it, for the losses recorded so far,
  oldest first, and a threshold.
\<close>

definition spec_window_of :: "nat \<Rightarrow> real list \<Rightarrow> real list" where
  "spec_window_of capacity losses = drop (length losses - capacity) losses"

definition spec_stop :: "nat \<Rightarrow> real \<Rightarrow> real list \<Rightarrow> bool" where
  "spec_stop capacity threshold losses =
     (if length losses < 2 then False
      else let window = spec_window_of capacity losses
           in (Max (set window) - Min (set window)) / Max (set window) < threshold)"

subsection \<open>Batches\<close>

text \<open>
  \<^verbatim>\<open>
  def get_batches(context_tuple_list, batch_size=100):
      random.shuffle(context_tuple_list)
      batches = []
      batch_target, batch_context, batch_negative = [], [], []
      for i in range(len(context_tuple_list)):
          batch_target.append(word_to_index[context_tuple_list[i][0]])
          batch_context.append(word_to_index[context_tuple_list[i][1]])
          batch_negative.append([word_to_index[w] for w in context_tuple_list[i][2]])
          if (i+1) % batch_size == 0 or i == len(context_tuple_list)-1:
              tensor_target = autograd.Variable(torch.from_numpy(np.array(batch_target)).long())
              tensor_context = autograd.Variable(torch.from_numpy(np.array(batch_context)).long())
              tensor_negative = autograd.Variable(torch.from_numpy(np.array(batch_negative)).long())
              batches.append((tensor_target, tensor_context, tensor_negative))
              batch_target, batch_context, batch_negative = [], [], []
      return batches
  \<close>
  \<open>random.shuffle\<close> rearranges the list in place: the permutation it picks is the
  argument \<open>shuffle\<close>, and the rearranged list is returned with the batches. The global
  dictionary \<open>word_to_index\<close> is an argument too. A tensor is the nested list of its
  entries; rows of different lengths do not make a tensor: \<open>np.array\<close> raises
  \<open>ValueError\<close> on them (older versions of numpy build an array of objects, which
  \<open>torch.from_numpy\<close> then refuses with a \<open>TypeError\<close>).
\<close>

type_synonym batch = "nat list \<times> nat list \<times> nat list list"

fun lookup_all :: "(token \<rightharpoonup> nat) \<Rightarrow> token list \<Rightarrow> error + nat list" where
  "lookup_all w2i [] = Inr []"
| "lookup_all w2i (w # ws) =
     (case w2i w of
        None \<Rightarrow> Inl KeyError
      | Some idx \<Rightarrow> (case lookup_all w2i ws of
                      Inl e \<Rightarrow> Inl e
                    | Inr idxs \<Rightarrow> Inr (idx # idxs)))"

definition tensor2 :: "nat list list \<Rightarrow> error + nat list list" where
  "tensor2 rows = (if rectangular rows then Inr rows else Inl ValueError)"

fun batch_loop ::
  "(token \<rightharpoonup> nat) \<Rightarrow> int \<Rightarrow> (token \<times> token \<times> token list) list \<Rightarrow> nat list \<Rightarrow>
   batch list \<times> nat list \<times> nat list \<times> nat list list \<Rightarrow>
   error + batch list \<times> nat list \<times> nat list \<times> nat list list" where
  "batch_loop w2i batch_size tuples [] st = Inr st"
| "batch_loop w2i batch_size tuples (i # rest) (batches, batch_target, batch_context, batch_negative) =
     (case tuples ! i of (target, ctx, negatives) \<Rightarrow>
      case w2i target of None \<Rightarrow> Inl KeyError | Some t \<Rightarrow>
      case w2i ctx of None \<Rightarrow> Inl KeyError | Some c \<Rightarrow>
      case lookup_all w2i negatives of Inl e \<Rightarrow> Inl e | Inr ns \<Rightarrow>
        let batch_target = batch_target @ [t];
            batch_context = batch_context @ [c];
            batch_negative = batch_negative @ [ns]
        in if batch_size = 0 then Inl ZeroDivisionError
           else if (int i + 1) mod batch_size = 0 \<or> int i = int (length tuples) - 1
           then (case tensor2 batch_negative of
                   Inl e \<Rightarrow> Inl e
                 | Inr tensor_negative \<Rightarrow>
                     batch_loop w2i batch_size tuples rest
                       (batches @ [(batch_target, batch_context, tensor_negative)], [], [], []))
           else batch_loop w2i batch_size tuples rest
                  (batches, batch_target, batch_context, batch_negative))"

definition get_batches ::
  "((token \<times> token \<times> token list) list \<Rightarrow> (token \<times> token \<times> token list) list) \<Rightarrow>
   (token \<rightharpoonup> nat) \<Rightarrow> (token \<times> token \<times> token list) list \<Rightarrow> int \<Rightarrow>
   error + batch list \<times> (token \<times> token \<times> token list) list" where
  "get_batches shuffle w2i tuples batch_size =
     (let shuffled = shuffle tuples
      in case batch_loop w2i batch_size shuffled [0 ..< length shuffled] ([], [], [], []) of
           Inl e \<Rightarrow> Inl e
         | Inr (batches, rest) \<Rightarrow> Inr (batches, shuffled))"

text \<open>The triples of a batch, and the index triple of a tuple of tokens.\<close>

definition triples_of :: "batch \<Rightarrow> (nat \<times> nat \<times> nat list) list" where
  "triples_of b = (case b of (ts, cs, nss) \<Rightarrow> zip ts (zip cs nss))"

definition index_triple :: "(token \<rightharpoonup> nat) \<Rightarrow> token \<times> token \<times> token list \<Rightarrow> nat \<times> nat \<times> nat list" where
  "index_triple w2i tuple =
     (case tuple of (target, ctx, negatives) \<Rightarrow>
        (the (w2i target), the (w2i ctx), map (\<lambda>w. the (w2i w)) negatives))"

definition batch_length :: "batch \<Rightarrow> nat" where
  "batch_length b = (case b of (ts, cs, nss) \<Rightarrow> length ts)"

definition tokens_of :: "token \<times> token \<times> token list \<Rightarrow> token set" where
  "tokens_of tuple = (case tuple of (target, ctx, negatives) \<Rightarrow> {target, ctx} \<union> set negatives)"

text \<open>A batch whose three tensors have one entry per triple, the negatives in rows of one length.\<close>

definition batch_ok :: "batch \<Rightarrow> bool" where
  "batch_ok b = (case b of (ts, cs, nss) \<Rightarrow>
     length cs = length ts \<and> length nss = length ts \<and> rectangular nss)"

text \<open>
  A dictionary of two words and two lists of tuples for the examples below: one with
  one negative per tuple, one whose tuples have different numbers of negatives.
\<close>

definition example_word_to_index :: "token \<rightharpoonup> nat" where
  "example_word_to_index = map_of [(''a'', 0), (''b'', 1)]"

definition example_tuples :: "(token \<times> token \<times> token list) list" where
  "example_tuples = [(''a'', ''b'', [''a'']), (''b'', ''a'', [''b'']), (''a'', ''b'', [''b''])]"

definition ragged_tuples :: "(token \<times> token \<times> token list) list" where
  "ragged_tuples = [(''a'', ''a'', []), (''a'', ''a'', [''a''])]"
section \<open>Properties\<close>

subsection \<open>Context pairs\<close>

lemma pairs_of_Nil: "pairs_of [] = []"
  by (simp add: pairs_of_def)

lemma window_loop_pairs:
  "pairs_of (fst (window_loop nxt text i word js (acc, g))) =
   pairs_of acc @ map (\<lambda>j. (word, text ! j)) (filter (\<lambda>j. j \<noteq> i) js)"
proof (induction js arbitrary: acc g)
  case Nil
  show ?case by simp
next
  case (Cons j js)
  show ?case
  proof (cases "i = j")
    case True
    then show ?thesis using Cons.IH [of acc g] by simp
  next
    case False
    obtain neg g' where n: "nxt g = (neg, g')" by (cases "nxt g")
    have "pairs_of (acc @ [(word, text ! j, neg)]) = pairs_of acc @ [(word, text ! j)]"
      by (simp add: pairs_of_def)
    then show ?thesis
      using False n Cons.IH [of "acc @ [(word, text ! j, neg)]" g'] by auto
  qed
qed

lemma position_loop_pairs:
  "pairs_of (fst (position_loop nxt w text ps st)) =
   pairs_of (fst st) @
   concat (map (\<lambda>(i, word). map (\<lambda>j. (word, text ! j)) (spec_window w (length text) i)) ps)"
proof (induction ps arbitrary: st)
  case Nil
  show ?case by simp
next
  case (Cons p ps)
  obtain i word where p: "p = (i, word)" by (cases p)
  obtain acc g where st: "st = (acc, g)" by (cases st)
  have "pairs_of (fst (position_loop nxt w text (p # ps) st)) =
        pairs_of (fst (window_loop nxt text i word
          [nat (max 0 (int i - w)) ..< nat (min (int i + w) (int (length text)))] (acc, g))) @
        concat (map (\<lambda>(i, word). map (\<lambda>j. (word, text ! j)) (spec_window w (length text) i)) ps)"
    unfolding p st by (simp add: Cons.IH Let_def)
  also have "pairs_of (fst (window_loop nxt text i word
          [nat (max 0 (int i - w)) ..< nat (min (int i + w) (int (length text)))] (acc, g))) =
        pairs_of acc @ map (\<lambda>j. (word, text ! j)) (spec_window w (length text) i)"
    by (simp only: window_loop_pairs spec_window_def min.commute)
  finally show ?case by (simp add: p st)
qed

lemma enumerate_positions:
  "map (\<lambda>(i, word). f i word) (enumerate 0 text) = map (\<lambda>i. f i (text ! i)) [0 ..< length text]"
  by (rule nth_equalityI) (simp_all add: nth_enumerate_eq)

lemma text_loop_pairs:
  "pairs_of (fst (text_loop nxt w corpus st)) = pairs_of (fst st) @ spec_context_pairs w corpus"
proof (induction corpus arbitrary: st)
  case Nil
  show ?case by (simp add: spec_context_pairs_def)
next
  case (Cons doc docs)
  have "concat (map (\<lambda>(i, word). map (\<lambda>j. (word, doc ! j)) (spec_window w (length doc) i))
                    (enumerate 0 doc)) = spec_document_pairs w doc"
    unfolding spec_document_pairs_def by (simp add: enumerate_positions)
  then show ?case
    by (simp add: Cons.IH position_loop_pairs spec_context_pairs_def)
qed

lemma context_pairs_eq:
  "pairs_of (fst (context_tuple_list nxt g corpus w)) = spec_context_pairs w corpus"
  by (simp add: context_tuple_list_def text_loop_pairs pairs_of_Nil)

lemma spec_pairs_positions:
  assumes "(t, c) \<in> set (spec_context_pairs w corpus)"
  shows "\<exists>text i j. text \<in> set corpus \<and> i < length text \<and> j < length text \<and> i \<noteq> j \<and>
           t = text ! i \<and> c = text ! j"
proof -
  from assms obtain doc where doc: "doc \<in> set corpus"
    and tc: "(t, c) \<in> set (spec_document_pairs w doc)"
    by (auto simp: spec_context_pairs_def)
  from tc obtain i j where i: "i < length doc" and j: "j \<in> set (spec_window w (length doc) i)"
    and eq: "t = doc ! i" "c = doc ! j"
    by (auto simp: spec_document_pairs_def)
  from j have "j \<noteq> i" and "j < length doc"
    by (auto simp: spec_window_def)
  with doc i eq show ?thesis by blast
qed

text \<open>
  C3. For every corpus and window half-width \<open>w\<close>, whatever the negative sampler
  returns, the (target, context) pairs emitted are exactly those the specification
  lists, once each and in its order: documents in order, positions \<open>i\<close> in order, and
  for each the positions \<open>j \<noteq> i\<close> of \<open>[max(0, i-w), min(len, i+w))\<close> in order, every
  pair made of two tokens of one document.
\<close>

theorem context_pairs_as_specified:
  "pairs_of (fst (context_tuple_list nxt g corpus w)) =
     concat (map (\<lambda>text.
       concat (map (\<lambda>i.
         map (\<lambda>j. (text ! i, text ! j))
             (filter (\<lambda>j. j \<noteq> i) [nat (max 0 (int i - w)) ..< nat (min (int (length text)) (int i + w))]))
         [0 ..< length text]))
       corpus)"
proof -
  have "spec_context_pairs w corpus =
     concat (map (\<lambda>text.
       concat (map (\<lambda>i.
         map (\<lambda>j. (text ! i, text ! j))
             (filter (\<lambda>j. j \<noteq> i) [nat (max 0 (int i - w)) ..< nat (min (int (length text)) (int i + w))]))
         [0 ..< length text]))
       corpus)"
    unfolding spec_context_pairs_def spec_document_pairs_def spec_window_def ..
  then show ?thesis by (simp only: context_pairs_eq)
qed

lemma example_document_pairs:
  "spec_context_pairs 2 [[''a'', ''b'', ''c'', ''d'', ''e'']] =
     [(''a'', ''b''), (''b'', ''a''), (''b'', ''c''), (''c'', ''a''), (''c'', ''b''), (''c'', ''d''),
      (''d'', ''b''), (''d'', ''c''), (''d'', ''e''), (''e'', ''c''), (''e'', ''d'')]"
  by code_simp

text \<open>
  C4. For the single document \<open>["a","b","c","d","e"]\<close> and \<open>w = 2\<close>, the contexts
  paired with the target \<open>"c"\<close> (position 2, the only occurrence of that token) are
  \<open>"a"\<close>, \<open>"b"\<close> and \<open>"d"\<close>: the window of the code is \<open>range(0, 4)\<close>, which stops
  before position 4, so \<open>"e"\<close> is not among them and the set is not
  \<open>{"a","b","d","e"}\<close>.
\<close>

theorem example_contexts_of_c:
  "{c. (''c'', c) \<in> set (pairs_of (fst (context_tuple_list nxt g [[''a'', ''b'', ''c'', ''d'', ''e'']] 2)))}
     = {''a'', ''b'', ''d''}
   \<and> (''c'', ''e'') \<notin> set (pairs_of (fst (context_tuple_list nxt g [[''a'', ''b'', ''c'', ''d'', ''e'']] 2)))"
proof
  show "{c. (''c'', c) \<in> set (pairs_of (fst (context_tuple_list nxt g [[''a'', ''b'', ''c'', ''d'', ''e'']] 2)))}
          = {''a'', ''b'', ''d''}"
    unfolding context_pairs_eq example_document_pairs by auto
  show "(''c'', ''e'') \<notin> set (pairs_of (fst (context_tuple_list nxt g [[''a'', ''b'', ''c'', ''d'', ''e'']] 2)))"
    unfolding context_pairs_eq example_document_pairs by simp
qed

text \<open>
  C5, as stated, fails: the loop compares the positions \<open>i\<close> and \<open>j\<close>, not the tokens,
  so a document that repeats a token within a window yields a pair of equal tokens.
\<close>

theorem equal_tokens_pair_counterexample:
  "(''a'', ''a'') \<in> set (pairs_of (fst (context_tuple_list (const_generator []) () [[''a'', ''a'']] 1)))"
  by code_simp

text \<open>
  C5, amended. Every emitted pair is made of the tokens at two different positions
  of one document of the corpus; so, when no document repeats a token, no pair has a
  target equal to its context.
\<close>

theorem context_pair_positions_differ:
  assumes "(t, c) \<in> set (pairs_of (fst (context_tuple_list nxt g corpus w)))"
  shows "(\<exists>doc \<in> set corpus. \<exists>i < length doc. \<exists>j < length doc.
            i \<noteq> j \<and> t = doc ! i \<and> c = doc ! j)
         \<and> ((\<forall>doc \<in> set corpus. distinct doc) \<longrightarrow> t \<noteq> c)"
proof -
  from assms have "(t, c) \<in> set (spec_context_pairs w corpus)"
    by (simp only: context_pairs_eq)
  then obtain doc i j where d: "doc \<in> set corpus" "i < length doc" "j < length doc" "i \<noteq> j"
      "t = doc ! i" "c = doc ! j"
    using spec_pairs_positions by blast
  have "distinct doc \<Longrightarrow> t \<noteq> c"
    using d by (simp add: nth_eq_iff_index_eq)
  with d show ?thesis by blast
qed

theorem context_pair_positions_differ_witness:
  "(''b'', ''a'') \<in> set (pairs_of (fst (context_tuple_list (const_generator []) () [[''a'', ''b'']] 1)))
   \<and> (\<exists>doc \<in> set [[''a'', ''b'']]. \<exists>i < length doc. \<exists>j < length doc.
          i \<noteq> j \<and> ''b'' = doc ! i \<and> ''a'' = doc ! j)
   \<and> distinct [''a'', ''b''] \<and> ''b'' \<noteq> ''a''"
proof -
  have h: "(''b'', ''a'') \<in> set (pairs_of (fst (context_tuple_list (const_generator []) () [[''a'', ''b'']] 1)))"
    by code_simp
  have d: "\<forall>doc \<in> set [[''a'', ''b'']]. distinct doc" by simp
  have p: "\<exists>doc \<in> set [[''a'', ''b'']]. \<exists>i < length doc. \<exists>j < length doc.
             i \<noteq> j \<and> ''b'' = doc ! i \<and> ''a'' = doc ! j"
    by (rule conjunct1 [OF context_pair_positions_differ [OF h]])
  have n: "''b'' \<noteq> ''a''"
    using conjunct2 [OF context_pair_positions_differ [OF h]] d by blast
  have d': "distinct [''a'', ''b'']" by simp
  from h p d' n show ?thesis by (intro conjI)
qed

subsection \<open>Early stopping\<close>

lemma py_max_eq: "xs \<noteq> [] \<Longrightarrow> py_max xs = Inr (Max (set xs))"
proof (cases xs)
  case Nil
  assume "xs \<noteq> []"
  with Nil show ?thesis by simp
next
  case (Cons a rest)
  have "(\<lambda>x s. max s x) = (max :: real \<Rightarrow> real \<Rightarrow> real)"
    by (intro ext) (simp add: max.commute)
  then have "foldl max a rest = Max (set (a # rest))"
    by (simp only: foldl_conv_fold Max.set_eq_fold)
  with Cons show ?thesis by (simp add: py_max_def)
qed

lemma py_min_eq: "xs \<noteq> [] \<Longrightarrow> py_min xs = Inr (Min (set xs))"
proof (cases xs)
  case Nil
  assume "xs \<noteq> []"
  with Nil show ?thesis by simp
next
  case (Cons a rest)
  have "(\<lambda>x s. min s x) = (min :: real \<Rightarrow> real \<Rightarrow> real)"
    by (intro ext) (simp add: min.commute)
  then have "foldl min a rest = Min (set (a # rest))"
    by (simp only: foldl_conv_fold Min.set_eq_fold)
  with Cons show ?thesis by (simp add: py_min_def)
qed

lemma record_losses_snoc:
  "record_losses self (losses @ [x]) = update_loss (record_losses self losses) x"
  by (simp add: record_losses_def)

lemma record_losses_fields:
  "patience (record_losses self losses) = patience self \<and>
   min_percent_gain (record_losses self losses) = min_percent_gain self"
  by (induction losses rule: rev_induct)
     (simp_all add: record_losses_def update_loss_def Let_def)

lemma record_losses_window:
  assumes "1 \<le> p"
  shows "loss_list (record_losses (EarlyStopping_init p g) losses) =
         drop (length losses - nat p) losses"
proof (induction losses rule: rev_induct)
  case Nil
  show ?case by (simp add: record_losses_def EarlyStopping_init_def)
next
  case (snoc x losses)
  let ?es = "record_losses (EarlyStopping_init p g) losses"
  have pat: "patience ?es = p"
    using record_losses_fields [of "EarlyStopping_init p g" losses]
    by (simp add: EarlyStopping_init_def)
  show ?case
  proof (cases "length losses < nat p")
    case True
    then have "\<not> int (length (loss_list ?es @ [x])) > p"
      using snoc.IH by simp
    then show ?thesis
      using True snoc.IH pat by (simp add: record_losses_snoc update_loss_def Let_def)
  next
    case False
    then have big: "int (length (loss_list ?es @ [x])) > p"
      using snoc.IH assms by simp
    from False assms have le: "nat p \<le> length losses" and pos: "0 < nat p" by simp_all
    then have ne: "drop (length losses - nat p) losses \<noteq> []" by simp
    have s: "Suc (length losses) - nat p = Suc (length losses - nat p)"
      using le by (rule Suc_diff_le)
    have "tl (drop (length losses - nat p) losses @ [x]) =
          tl (drop (length losses - nat p) losses) @ [x]"
      using ne by (cases "drop (length losses - nat p) losses") simp_all
    also have "tl (drop (length losses - nat p) losses) = drop (Suc (length losses - nat p)) losses"
      by (simp add: drop_Suc tl_drop)
    also have "drop (Suc (length losses - nat p)) losses @ [x] =
          drop (Suc (length losses - nat p)) (losses @ [x])"
      using pos le by simp
    finally have "tl (drop (length losses - nat p) losses @ [x]) =
          drop (Suc (length losses) - nat p) (losses @ [x])"
      by (simp only: s)
    then show ?thesis
      using big snoc.IH pat by (simp add: record_losses_snoc update_loss_def Let_def)
  qed
qed

text \<open>
  C7, amended. For a patience of at least 1 and at least one recorded loss, the
  retained window is the last \<open>patience\<close> recorded losses (all of them while there are
  fewer). The stop decision is false whenever the window holds exactly one loss; when
  the window holds at least two losses and its maximum is not zero, the decision is
  true exactly when \<open>(max - min) / max\<close> over the window is strictly below the
  configured minimum percent gain divided by 100.
\<close>

theorem stop_training_on_window:
  assumes "1 \<le> p" and "losses \<noteq> []"
  shows "loss_list (record_losses (EarlyStopping_init p g) losses) = drop (length losses - nat p) losses
    \<and> (length (drop (length losses - nat p) losses) = 1 \<longrightarrow>
         stop_training (record_losses (EarlyStopping_init p g) losses) = Inr False)
    \<and> (2 \<le> length (drop (length losses - nat p) losses) \<and>
        Max (set (drop (length losses - nat p) losses)) \<noteq> 0 \<longrightarrow>
         stop_training (record_losses (EarlyStopping_init p g) losses) =
           Inr ((Max (set (drop (length losses - nat p) losses)) -
                 Min (set (drop (length losses - nat p) losses))) /
                Max (set (drop (length losses - nat p) losses)) < g / 100))"
proof -
  let ?es = "record_losses (EarlyStopping_init p g) losses"
  let ?w = "drop (length losses - nat p) losses"
  have w: "loss_list ?es = ?w" by (rule record_losses_window [OF assms(1)])
  have g: "min_percent_gain ?es = g / 100"
    using record_losses_fields [of "EarlyStopping_init p g" losses]
    by (simp add: EarlyStopping_init_def)
  have one: "length ?w = 1 \<Longrightarrow> stop_training ?es = Inr False"
    unfolding stop_training_def w by simp
  have two: "stop_training ?es = Inr ((Max (set ?w) - Min (set ?w)) / Max (set ?w) < g / 100)"
    if "2 \<le> length ?w" "Max (set ?w) \<noteq> 0"
  proof -
    from that(1) have ne: "?w \<noteq> []" by auto
    from that(1) have n1: "length ?w \<noteq> 1" by simp
    show ?thesis
      unfolding stop_training_def w g
      using n1 that(2) by (simp add: py_max_eq [OF ne] py_min_eq [OF ne] Let_def)
  qed
  from w one two show ?thesis by blast
qed

theorem stop_training_on_window_witness:
  "(1::int) \<le> 5 \<and> [10, 9, 8 :: real] \<noteq> []
   \<and> loss_list (record_losses (EarlyStopping_init 5 1) [10, 9, 8]) = [10, 9, 8]
   \<and> length [10, 9, 8 :: real] = 3
   \<and> stop_training (record_losses (EarlyStopping_init 5 1) [10, 9, 8]) = Inr False"
proof -
  have p: "(1::int) \<le> 5" by simp
  have n: "[10, 9, 8 :: real] \<noteq> []" by simp
  have d: "drop (length [10, 9, 8 :: real] - nat 5) [10, 9, 8 :: real] = [10, 9, 8]" by simp
  note t = stop_training_on_window [OF p n, of 1, unfolded d]
  have m: "Max (set [10, 9, 8 :: real]) = 10" "Min (set [10, 9, 8 :: real]) = 8" by simp_all
  from t have "stop_training (record_losses (EarlyStopping_init 5 1) [10, 9, 8]) =
      Inr ((Max (set [10, 9, 8 :: real]) - Min (set [10, 9, 8 :: real])) / Max (set [10, 9, 8 :: real])
           < 1 / 100)"
    unfolding m by simp
  then have "stop_training (record_losses (EarlyStopping_init 5 1) [10, 9, 8]) = Inr False"
    unfolding m by simp
  with t p n show ?thesis by simp
qed

text \<open>
  C7, as stated, fails. With a patience of 1 the window never holds more than one
  loss, and the guard \<open>len(self.loss_list) == 1\<close> answers false although two losses
  have been recorded and the gain over the window, which is 0, is below the threshold
  (taken as 0.1 or as 0.1 percent). With no loss recorded the decision is not false
  either: \<open>max\<close> of the empty list raises.
\<close>

theorem stop_training_patience_one_counterexample:
  "stop_training (record_losses (EarlyStopping_init 1 0.1) [10, 5]) = Inr False
   \<and> spec_stop 1 0.1 [10, 5] \<and> spec_stop 1 (0.1 / 100) [10, 5]"
  by (simp add: record_losses_def update_loss_def EarlyStopping_init_def stop_training_def
        spec_stop_def spec_window_of_def Let_def)

lemma stop_training_no_loss: "stop_training (EarlyStopping_init 5 0.1) = Inl ValueError"
  by (simp add: EarlyStopping_init_def stop_training_def py_max_def)

subsection \<open>The keep-probability of the subsampler\<close>

lemma keep_probability_split:
  assumes "0 < p"
  shows "keep_probability p = 1 / (p * 1000) + 1 / sqrt (p * 1000)"
proof -
  let ?x = "p * 1000"
  from assms have x: "0 < ?x" by simp
  then have s: "0 < sqrt ?x" by simp
  have sq: "sqrt ?x * sqrt ?x = ?x" using x by simp
  have "keep_probability p = (1 + sqrt ?x) / ?x"
    by (simp add: keep_probability_def)
  also have "\<dots> = 1 / ?x + sqrt ?x / ?x"
    by (simp add: add_divide_distrib)
  also have "sqrt ?x / ?x = 1 / sqrt ?x"
    using s x sq by (simp add: field_simps)
  finally show ?thesis .
qed

lemma keep_probability_decreasing:
  assumes "0 < p" and "p < q"
  shows "keep_probability q < keep_probability p"
proof -
  from assms have q: "0 < q" by simp
  have a: "1 / (q * 1000) < 1 / (p * 1000)"
    using assms by (simp add: frac_less2)
  have "sqrt (p * 1000) < sqrt (q * 1000)"
    using assms by simp
  moreover have "0 < sqrt (p * 1000)"
    using assms by simp
  ultimately have b: "1 / sqrt (q * 1000) < 1 / sqrt (p * 1000)"
    by (simp add: frac_less2)
  from a b show ?thesis
    unfolding keep_probability_split [OF assms(1)] keep_probability_split [OF q]
    by (rule add_strict_mono)
qed

lemma keep_probability_rare:
  assumes "0 < p" and "p \<le> 1 / 1000"
  shows "1 \<le> keep_probability p"
proof -
  from assms have "p * 1000 \<le> 1" by simp
  moreover from assms have "0 < p * 1000" by simp
  ultimately have "1 \<le> 1 / (p * 1000)" by simp
  moreover have "0 \<le> 1 / sqrt (p * 1000)" using assms by simp
  ultimately show ?thesis
    unfolding keep_probability_split [OF assms(1)] by linarith
qed

lemma keep_probability_250: "keep_probability (1 / 250) = 3 / 4"
proof -
  have "sqrt (4::real) = 2"
    using real_sqrt_abs [of 2] by simp
  then show ?thesis by (simp add: keep_probability_def)
qed

lemma keep_probability_frequent:
  assumes "1 / 250 \<le> p"
  shows "keep_probability p < 1"
proof (cases "p = 1 / 250")
  case True
  have "keep_probability p = 3 / 4"
    unfolding True by (rule keep_probability_250)
  then show ?thesis by simp
next
  case False
  with assms have "1 / 250 < p" by simp
  then have "keep_probability p < keep_probability (1 / 250)"
    by (intro keep_probability_decreasing) simp_all
  then show ?thesis by (simp add: keep_probability_250)
qed

lemma keep_probability_clamped_limit:
  "((\<lambda>p. min 1 (keep_probability p)) \<longlongrightarrow> 1) (at_right 0)"
proof (rule tendsto_eventually)
  have "\<forall>p>0. p < 1 / 1000 \<longrightarrow> min 1 (keep_probability p) = 1"
    using keep_probability_rare by (simp add: min_def)
  then show "\<forall>\<^sub>F p in at_right 0. min 1 (keep_probability p) = 1"
    unfolding eventually_at_right_field by (intro exI [of _ "1 / 1000"]) simp
qed

text \<open>
  C8. The keep-probability \<open>P(p) = (sqrt(p * 1e3) + 1) * 1e-3 / p\<close> is strictly
  decreasing in \<open>p\<close> over the positive numbers, so over \<open>(0, 1]\<close>; for \<open>p\<close> up to
  \<open>0.001\<close> it is at least 1, so that clamped to 1 it is 1 and tends to 1 as \<open>p\<close> tends
  to 0 from above; from \<open>p = 0.004\<close> on it is strictly below 1.
\<close>

theorem keep_probability_shape:
  "(\<forall>p q. 0 < p \<and> p < q \<longrightarrow> keep_probability q < keep_probability p)
   \<and> (\<forall>p. 0 < p \<and> p \<le> 1 / 1000 \<longrightarrow> 1 \<le> keep_probability p)
   \<and> ((\<lambda>p. min 1 (keep_probability p)) \<longlongrightarrow> 1) (at_right 0)
   \<and> (\<forall>p. 1 / 250 \<le> p \<longrightarrow> keep_probability p < 1)"
  using keep_probability_decreasing keep_probability_rare keep_probability_clamped_limit
    keep_probability_frequent by blast

theorem keep_probability_shape_witness:
  "keep_probability (1 / 250) < keep_probability (1 / 1000)
   \<and> 1 \<le> keep_probability (1 / 1000)
   \<and> keep_probability (1 / 250) < 1"
proof -
  have a: "(0::real) < 1 / 1000 \<and> (1::real) / 1000 < 1 / 250" by simp
  have b: "(0::real) < 1 / 1000 \<and> (1::real) / 1000 \<le> 1 / 1000" by simp
  have c: "(1::real) / 250 \<le> 1 / 250" by simp
  from keep_probability_shape a b c show ?thesis by blast
qed


subsection \<open>The loss\<close>

lemma sigmoid_pos: "0 < sigmoid x"
  by (simp add: sigmoid_def add_pos_pos)

lemma sigmoid_less_one: "sigmoid x < 1"
  by (simp add: sigmoid_def add_pos_pos)

lemma sigmoid_zero: "sigmoid 0 = 1 / 2"
  by (simp add: sigmoid_def)

lemma sigmoid_minus_one: "sigmoid (- 1) < sigmoid 0"
proof -
  have e: "1 < exp (1::real)" by simp
  have pos: "0 < 1 + exp (1::real)" by (simp add: add_pos_pos)
  have "1 / (1 + exp (1::real)) < 1 / 2"
    using e pos by (simp add: pos_divide_less_eq)
  then show ?thesis by (simp add: sigmoid_def)
qed

lemma logsigmoid_gap: "ln (sigmoid (- 1)) + ln (sigmoid 1) < logsigmoid 0"
proof -
  have a: "ln (sigmoid (- 1)) < ln (sigmoid 0)"
    using sigmoid_minus_one sigmoid_pos [of "- 1"] by simp
  have b: "ln (sigmoid 1) < 0"
    using sigmoid_less_one [of 1] sigmoid_pos [of 1] by simp
  from a b show ?thesis by (simp add: logsigmoid_def)
qed

lemma forward_example:
  "forward example_net [0] [0] [[0, 1]] = Inr (- (logsigmoid 1 + logsigmoid 0))"
  by (simp add: forward_def example_net_def rectangular_def embedding_def mul_sum_def
        bmm_entry_def Let_def)

lemma spec_example:
  "spec_forward example_net [(0, 0, [0, 1])] =
     - ln (sigmoid 1) - (ln (sigmoid (- 1)) + ln (sigmoid 1))"
  by (simp add: spec_forward_def spec_loss_def example_net_def mul_sum_def)

text \<open>
  C2 at a batch of one triple with two negatives: target 0, context 0, negatives 0
  and 1, on \<open>example_net\<close>. The positive score is 1, the negative scores are 1 and -1.
  \<open>forward\<close> adds the negative scores up before the log-sigmoid
  (\<open>torch.sum(emb_product, dim=1)\<close>) and returns
  \<open>- (logsigmoid 1 + logsigmoid 0)\<close>; the loss of the claim, with one log-sigmoid per
  negative, is \<open>- ln (sigmoid 1) - (ln (sigmoid (-1)) + ln (sigmoid 1))\<close>, a different
  number.
\<close>

theorem forward_two_negatives:
  "forward example_net [0] [0] [[0, 1]] = Inr (- (logsigmoid 1 + logsigmoid 0))
   \<and> spec_forward example_net [(0, 0, [0, 1])] =
       - ln (sigmoid 1) - (ln (sigmoid (- 1)) + ln (sigmoid 1))
   \<and> forward example_net [0] [0] [[0, 1]] \<noteq> Inr (spec_forward example_net [(0, 0, [0, 1])])"
proof -
  have "- (logsigmoid 1 + logsigmoid 0) \<noteq> - ln (sigmoid 1) - (ln (sigmoid (- 1)) + ln (sigmoid 1))"
    using logsigmoid_gap by (simp add: logsigmoid_def)
  then show ?thesis by (simp only: forward_example spec_example) simp
qed


subsection \<open>Counting words\<close>

lemma counter_add_map_of:
  "map_of (counter_add counts word) w =
     (if w = word then Some (case map_of counts word of None \<Rightarrow> 1 | Some c \<Rightarrow> c + 1)
      else map_of counts w)"
  by (simp add: counter_add_def update_conv')

lemma counter_add_keys:
  "map fst (counter_add counts word) =
     (if word \<in> set (map fst counts) then map fst counts else map fst counts @ [word])"
  by (simp add: counter_add_def update_keys)

lemma foldl_counter_add_map_of:
  "map_of (foldl counter_add counts ws) w =
     (case map_of counts w of
        None \<Rightarrow> if w \<in> set ws then Some (count_list ws w) else None
      | Some c \<Rightarrow> Some (c + count_list ws w))"
proof (induction ws arbitrary: counts)
  case Nil
  show ?case by (simp split: option.splits)
next
  case (Cons x xs)
  show ?case
    by (simp add: Cons.IH counter_add_map_of split: option.splits)
qed

lemma foldl_counter_add_distinct:
  "distinct (map fst counts) \<Longrightarrow> distinct (map fst (foldl counter_add counts ws))"
proof (induction ws arbitrary: counts)
  case Nil
  then show ?case by simp
next
  case (Cons x xs)
  have "distinct (map fst (counter_add counts x))"
    using Cons.prems by (simp add: counter_add_keys)
  then show ?case using Cons.IH by simp
qed

lemma foldl_counter_add_keys:
  "set (map fst (foldl counter_add counts ws)) = set (map fst counts) \<union> set ws"
proof (induction ws arbitrary: counts)
  case Nil
  show ?case by simp
next
  case (Cons x xs)
  have "set (map fst (counter_add counts x)) = insert x (set (map fst counts))"
    by (auto simp add: counter_add_keys)
  then show ?case using Cons.IH [of "counter_add counts x"] by auto
qed

lemma Counter_map_of:
  "map_of (Counter ws) w = (if w \<in> set ws then Some (count_list ws w) else None)"
  by (simp add: Counter_def foldl_counter_add_map_of)

lemma Counter_distinct: "distinct (map fst (Counter ws))"
  by (simp add: Counter_def foldl_counter_add_distinct)

lemma Counter_keys: "set (map fst (Counter ws)) = set ws"
  using foldl_counter_add_keys [of "[]" ws] by (simp add: Counter_def)

lemma Counter_entries:
  "(w, c) \<in> set (Counter ws) \<longleftrightarrow> w \<in> set ws \<and> c = count_list ws w"
proof -
  have "(w, c) \<in> set (Counter ws) \<longleftrightarrow> map_of (Counter ws) w = Some c"
    using Counter_distinct [of ws] by (metis map_of_eq_Some_iff)
  then show ?thesis by (auto simp add: Counter_map_of)
qed

lemma Counter_snd: "map snd (Counter ws) = map (count_list ws) (map fst (Counter ws))"
proof (rule nth_equalityI)
  show "length (map snd (Counter ws)) = length (map (count_list ws) (map fst (Counter ws)))"
    by simp
next
  fix i assume "i < length (map snd (Counter ws))"
  then have i: "i < length (Counter ws)" by simp
  then have "Counter ws ! i \<in> set (Counter ws)" by simp
  then have "snd (Counter ws ! i) = count_list ws (fst (Counter ws ! i))"
    using Counter_entries [of "fst (Counter ws ! i)" "snd (Counter ws ! i)" ws] by simp
  with i show "map snd (Counter ws) ! i = map (count_list ws) (map fst (Counter ws)) ! i"
    by simp
qed

lemma sum_list_Counter:
  "sum_list (map (\<lambda>v. f v) (map snd (Counter ws))) = (\<Sum>w \<in> set ws. f (count_list ws w))"
proof -
  have "sum_list (map f (map snd (Counter ws))) =
        sum_list (map (\<lambda>w. f (count_list ws w)) (map fst (Counter ws)))"
    by (simp only: Counter_snd) (simp add: comp_def)
  also have "\<dots> = (\<Sum>w \<in> set (map fst (Counter ws)). f (count_list ws w))"
    using Counter_distinct [of ws] by (rule sum_list_distinct_conv_sum_set)
  finally show ?thesis by (simp only: Counter_keys)
qed

lemma sum_count_list: "(\<Sum>w \<in> set ws. count_list ws w) = length ws"
  by (rule sum_count_set) simp_all


subsection \<open>Subsampling\<close>

lemma relative_frequencies_Counter:
  "relative_frequencies (Counter ws) =
     Inr (map (\<lambda>(word, c). (word, real c / real (length ws))) (Counter ws))"
proof -
  have s: "sum_list (map snd (Counter ws)) = length ws"
    using sum_list_Counter [of "\<lambda>v. v" ws] by (simp add: sum_count_list)
  have "Counter ws \<noteq> [] \<Longrightarrow> length ws \<noteq> 0"
    using Counter_keys [of ws] by auto
  then show ?thesis
    by (auto simp add: relative_frequencies_def s Let_def)
qed

lemma map_of_frequencies:
  "map_of (map (\<lambda>(word, c). (word, real c / real (length ws))) (Counter ws)) w =
     (if w \<in> set ws then Some (real (count_list ws w) / real (length ws)) else None)"
proof -
  have "map_of (map (\<lambda>(word, c). (word, real c / real (length ws))) (Counter ws)) w =
        map_option (\<lambda>c. real c / real (length ws)) (map_of (Counter ws) w)"
    by (simp add: map_of_map)
  then show ?thesis by (simp add: Counter_map_of)
qed

lemma frequency_nonzero:
  "w \<in> set ws \<Longrightarrow> real (count_list ws w) / real (length ws) \<noteq> 0"
proof -
  assume w: "w \<in> set ws"
  then have "count_list ws w \<noteq> 0" using count_list_0_iff [of ws w] by simp
  then have "0 < count_list ws w" by simp
  moreover from w have "0 < length ws" by (cases ws) auto
  ultimately show ?thesis by simp
qed

lemma word_loop_result:
  assumes "\<forall>w \<in> set doc. map_of wc w = Some (rf w) \<and> rf w \<noteq> 0"
  shows "word_loop rnd wc doc (kept, n) =
     Inr (kept @ map fst (filter (\<lambda>(word, u). u < keep_probability (rf word))
                                 (zip doc (map rnd [n ..< n + length doc]))),
          n + length doc)"
  using assms
proof (induction doc arbitrary: kept n)
  case Nil
  show ?case by simp
next
  case (Cons word rest)
  have r: "\<forall>w \<in> set rest. map_of wc w = Some (rf w) \<and> rf w \<noteq> 0"
    using Cons.prems by simp
  have w: "map_of wc word = Some (rf word)" "rf word \<noteq> 0"
    using Cons.prems by simp_all
  have u: "[n ..< n + length (word # rest)] = n # [Suc n ..< Suc n + length rest]"
    using upt_conv_Cons [of n "Suc (n + length rest)"] by (simp del: upt_Suc)
  show ?case
    unfolding u using w by (simp add: Cons.IH [OF r] del: upt_Suc)
qed

lemma filter_loop_result:
  assumes "\<forall>w \<in> set (concat texts). map_of wc w = Some (rf w) \<and> rf w \<noteq> 0"
  shows "filter_loop rnd wc texts (filtered, n) =
     Inr (filtered @
          map (\<lambda>k. map fst (filter (\<lambda>(word, u). u < keep_probability (rf word))
                  (zip (texts ! k)
                       (map rnd [n + length (concat (take k texts)) ..<
                                 n + length (concat (take k texts)) + length (texts ! k)]))))
              [0 ..< length texts],
          n + length (concat texts))"
  using assms
proof (induction texts arbitrary: filtered n)
  case Nil
  show ?case by simp
next
  case (Cons doc docs)
  have d: "\<forall>w \<in> set doc. map_of wc w = Some (rf w) \<and> rf w \<noteq> 0"
    using Cons.prems by simp
  have ds: "\<forall>w \<in> set (concat docs). map_of wc w = Some (rf w) \<and> rf w \<noteq> 0"
    using Cons.prems by simp
  have u: "[0 ..< length (doc # docs)] = 0 # map Suc [0 ..< length docs]"
    by (simp add: upt_conv_Cons map_Suc_upt del: upt_Suc)
  show ?case
    unfolding u
    by (simp add: word_loop_result [OF d] Cons.IH [OF ds] comp_def add.assoc del: upt_Suc)
qed

lemma subsample_result:
  "subsample_frequent_words rnd n corpus =
     Inr (spec_subsample rnd n corpus, n + length (concat corpus))"
proof -
  let ?wc = "map (\<lambda>(word, c). (word, real c / real (length (concat corpus)))) (Counter (concat corpus))"
  have a: "\<forall>w \<in> set (concat corpus). map_of ?wc w = Some (relative_frequency corpus w) \<and>
             relative_frequency corpus w \<noteq> 0"
    using frequency_nonzero [of _ "concat corpus"]
    by (simp add: map_of_frequencies relative_frequency_def)
  show ?thesis
    unfolding subsample_frequent_words_def relative_frequencies_Counter
    by (simp add: filter_loop_result [OF a] spec_subsample_def spec_keep_document_def)
qed

lemma keep_probability_formula:
  "keep_probability p = (sqrt (p * 1000) + 1) * (1 / 1000) / p"
  unfolding keep_probability_def by (simp only: add.commute)

text \<open>
  C6. For every corpus, every sequence of draws and every number \<open>n\<close> of draws taken
  before, the subsampler returns (it does not raise), has then taken one draw per token
  occurrence, and its output has one document per input document, in order: document
  \<open>k\<close> is the input document \<open>k\<close> filtered, its token at position \<open>i\<close> being paired
  with the draw of number \<open>n\<close> plus the number of tokens of the documents before plus
  \<open>i\<close>, and kept if and only if that draw is below
  \<open>P = (sqrt(p * 1e3) + 1) * 1e-3 / p\<close>, where \<open>p\<close> is the number of occurrences of the
  token in the whole corpus over the number of tokens of the corpus (so always when
  \<open>P\<close> is 1 or more, the draws being below 1).
\<close>

theorem subsample_as_specified:
  "\<exists>filtered_corpus.
     subsample_frequent_words rnd n corpus = Inr (filtered_corpus, n + length (concat corpus))
   \<and> length filtered_corpus = length corpus
   \<and> filtered_corpus =
       map (\<lambda>k. map fst
              (filter (\<lambda>(word, u).
                         u < (sqrt (real (count_list (concat corpus) word) /
                                    real (length (concat corpus)) * 1000) + 1) * (1 / 1000) /
                             (real (count_list (concat corpus) word) /
                              real (length (concat corpus))))
                 (zip (corpus ! k)
                      (map rnd [n + length (concat (take k corpus)) ..<
                                n + length (concat (take k corpus)) + length (corpus ! k)]))))
           [0 ..< length corpus]"
proof -
  have f: "spec_subsample rnd n corpus =
       map (\<lambda>k. map fst
              (filter (\<lambda>(word, u).
                         u < (sqrt (real (count_list (concat corpus) word) /
                                    real (length (concat corpus)) * 1000) + 1) * (1 / 1000) /
                             (real (count_list (concat corpus) word) /
                              real (length (concat corpus))))
                 (zip (corpus ! k)
                      (map rnd [n + length (concat (take k corpus)) ..<
                                n + length (concat (take k corpus)) + length (corpus ! k)]))))
           [0 ..< length corpus]"
    unfolding spec_subsample_def spec_keep_document_def relative_frequency_def
      keep_probability_formula ..
  have l: "length (spec_subsample rnd n corpus) = length corpus"
    by (simp add: spec_subsample_def)
  from subsample_result [of rnd n corpus] l f show ?thesis
    by (intro exI [of _ "spec_subsample rnd n corpus"] conjI)
qed

subsection \<open>The vocabulary\<close>

lemma foldl_upd_map_of:
  "foldl (\<lambda>d (k, v). d(k \<mapsto> v)) m items = m ++ map_of (rev items)"
proof (induction items arbitrary: m)
  case Nil
  show ?case by simp
next
  case (Cons item items)
  obtain k v where item: "item = (k, v)" by (cases item)
  have "foldl (\<lambda>d (k, v). d(k \<mapsto> v)) m (item # items) =
        foldl (\<lambda>d (k, v). d(k \<mapsto> v)) (m(k \<mapsto> v)) items"
    by (simp only: item foldl_Cons prod.case)
  also have "\<dots> = m(k \<mapsto> v) ++ map_of (rev items)"
    by (rule Cons.IH)
  also have "\<dots> = m ++ map_of (rev (item # items))"
    by (simp only: item rev.simps map_of_append map_of.simps fst_conv snd_conv
          map_add_assoc map_add_upd map_add_empty)
  finally show ?case .
qed

lemma dict_of_distinct:
  assumes "distinct (map fst items)"
  shows "dict_of items k = Some v \<longleftrightarrow> (k, v) \<in> set items"
proof -
  have "distinct (map fst (rev items))"
    using assms by (simp add: rev_map [symmetric])
  then have "map_of (rev items) k = Some v \<longleftrightarrow> (k, v) \<in> set (rev items)"
    by (rule map_of_eq_Some_iff)
  then show ?thesis by (simp add: dict_of_def foldl_upd_map_of)
qed

lemma word_to_index_iff:
  assumes "distinct vs"
  shows "dict_of (map (\<lambda>(idx, w). (w, idx)) (enumerate 0 vs)) w = Some i \<longleftrightarrow>
         i < length vs \<and> vs ! i = w"
proof -
  have "map fst (map (\<lambda>(idx, w). (w, idx)) (enumerate 0 vs)) = vs"
    by (rule nth_equalityI) (simp_all add: nth_enumerate_eq)
  then have "distinct (map fst (map (\<lambda>(idx, w). (w, idx)) (enumerate 0 vs)))"
    using assms by simp
  then have "dict_of (map (\<lambda>(idx, w). (w, idx)) (enumerate 0 vs)) w = Some i \<longleftrightarrow>
        (w, i) \<in> set (map (\<lambda>(idx, w). (w, idx)) (enumerate 0 vs))"
    by (rule dict_of_distinct)
  also have "\<dots> \<longleftrightarrow> (i, w) \<in> set (enumerate 0 vs)"
    by auto
  also have "\<dots> \<longleftrightarrow> i < length vs \<and> vs ! i = w"
    by (simp add: in_set_enumerate_eq)
  finally show ?thesis .
qed

lemma index_to_word_iff:
  "dict_of (map (\<lambda>(idx, w). (idx, w)) (enumerate 0 vs)) i = Some w \<longleftrightarrow>
   i < length vs \<and> vs ! i = w"
proof -
  have "distinct (map fst (map (\<lambda>(idx, w). (idx, w)) (enumerate 0 vs)))"
    by (simp add: comp_def case_prod_unfold)
  then have "dict_of (map (\<lambda>(idx, w). (idx, w)) (enumerate 0 vs)) i = Some w \<longleftrightarrow>
        (i, w) \<in> set (map (\<lambda>(idx, w). (idx, w)) (enumerate 0 vs))"
    by (rule dict_of_distinct)
  also have "\<dots> \<longleftrightarrow> (i, w) \<in> set (enumerate 0 vs)"
    by auto
  also have "\<dots> \<longleftrightarrow> i < length vs \<and> vs ! i = w"
    by (simp add: in_set_enumerate_eq)
  finally show ?thesis .
qed

lemma set_iteration_remdups: "set_iteration remdups"
  by (simp add: set_iteration_def)

text \<open>
  C9, amended. The cell that builds the vocabulary never fails, whatever the corpus,
  empty or not, and whatever the order in which the set is iterated: it returns, every
  token of the (subsampled) corpus it works on gets exactly one index, different tokens
  get different indices, the indices are those from 0 up to the number of distinct
  tokens, and \<open>index_to_word\<close> is the inverse of \<open>word_to_index\<close>.
\<close>

theorem build_vocabulary_total:
  assumes "set_iteration iteration"
  shows "\<exists>cell. build_vocabulary iteration rnd n corpus0 = Inr cell
     \<and> corpus_of cell = spec_subsample rnd n corpus0
     \<and> dom (word_to_index cell) = set (concat (corpus_of cell))
     \<and> inj_on (word_to_index cell) (set (concat (corpus_of cell)))
     \<and> ran (word_to_index cell) = {0 ..< card (set (concat (corpus_of cell)))}
     \<and> (\<forall>w i. word_to_index cell w = Some i \<longleftrightarrow> index_to_word cell i = Some w)"
proof -
  let ?corpus = "spec_subsample rnd n corpus0"
  let ?vs = "iteration (concat ?corpus)"
  let ?w2i = "dict_of (map (\<lambda>(idx, w). (w, idx)) (enumerate 0 ?vs))"
  let ?i2w = "dict_of (map (\<lambda>(idx, w). (idx, w)) (enumerate 0 ?vs))"
  let ?cell = "\<lparr> corpus_of = ?corpus, vocabulary = ?vs, word_to_index = ?w2i,
                  index_to_word = ?i2w, draws_taken = n + length (concat corpus0) \<rparr>"
  from assms have d: "distinct ?vs" and s: "set ?vs = set (concat ?corpus)"
    by (simp_all add: set_iteration_def)
  have len: "length ?vs = card (set (concat ?corpus))"
    using d s distinct_card [of ?vs] by simp
  have w: "?w2i w = Some i \<longleftrightarrow> i < length ?vs \<and> ?vs ! i = w" for w i
    using d by (rule word_to_index_iff)
  have i: "?i2w i = Some w \<longleftrightarrow> i < length ?vs \<and> ?vs ! i = w" for w i
    by (rule index_to_word_iff)
  have b: "build_vocabulary iteration rnd n corpus0 = Inr ?cell"
    by (simp add: build_vocabulary_def subsample_result Let_def)
  have dm: "dom ?w2i = set (concat ?corpus)"
  proof -
    have "dom ?w2i = {w. \<exists>i. i < length ?vs \<and> ?vs ! i = w}"
      unfolding dom_def using w by simp
    also have "\<dots> = set ?vs"
      by (auto simp add: in_set_conv_nth)
    finally show ?thesis using s by simp
  qed
  have inj: "inj_on ?w2i (set (concat ?corpus))"
  proof (rule inj_onI)
    fix x y
    assume x: "x \<in> set (concat ?corpus)" and e: "?w2i x = ?w2i y"
    from x dm obtain k where k: "?w2i x = Some k" by blast
    have ky: "?w2i y = Some k" by (rule trans [OF e [symmetric] k])
    from k have "k < length ?vs \<and> ?vs ! k = x" by (simp only: w)
    moreover from ky have "k < length ?vs \<and> ?vs ! k = y" by (simp only: w)
    ultimately show "x = y" by simp
  qed
  have rn: "ran ?w2i = {0 ..< card (set (concat ?corpus))}"
  proof -
    have "ran ?w2i = {k. \<exists>x. k < length ?vs \<and> ?vs ! k = x}"
      unfolding ran_def using w by simp
    also have "\<dots> = {0 ..< length ?vs}" by auto
    finally show ?thesis using len by simp
  qed
  have rt: "\<forall>x k. ?w2i x = Some k \<longleftrightarrow> ?i2w k = Some x"
    using w i by simp
  show ?thesis
  proof (intro exI [of _ ?cell] conjI)
    show "build_vocabulary iteration rnd n corpus0 = Inr ?cell" by (rule b)
    show "corpus_of ?cell = ?corpus" by simp
    show "dom (word_to_index ?cell) = set (concat (corpus_of ?cell))" using dm by simp
    show "inj_on (word_to_index ?cell) (set (concat (corpus_of ?cell)))" using inj by simp
    show "ran (word_to_index ?cell) = {0 ..< card (set (concat (corpus_of ?cell)))}"
      using rn by simp
    show "\<forall>w i. word_to_index ?cell w = Some i \<longleftrightarrow> index_to_word ?cell i = Some w"
      using rt by simp
  qed
qed

theorem build_vocabulary_total_witness:
  "set_iteration remdups
   \<and> (\<exists>cell. build_vocabulary remdups example_draws 0 [[''a'', ''b'']] = Inr cell
     \<and> corpus_of cell = spec_subsample example_draws 0 [[''a'', ''b'']]
     \<and> dom (word_to_index cell) = set (concat (corpus_of cell))
     \<and> inj_on (word_to_index cell) (set (concat (corpus_of cell)))
     \<and> ran (word_to_index cell) = {0 ..< card (set (concat (corpus_of cell)))}
     \<and> (\<forall>w i. word_to_index cell w = Some i \<longleftrightarrow> index_to_word cell i = Some w))"
  using build_vocabulary_total [OF set_iteration_remdups, of example_draws 0 "[[''a'', ''b'']]"]
    set_iteration_remdups
  by (intro conjI)

text \<open>
  C9, as stated, fails: on the empty corpus the cell does not raise. It returns an
  empty vocabulary and two empty dictionaries; the source has no
  \<open>EmptyVocabularyError\<close>.
\<close>

theorem build_vocabulary_empty_counterexample:
  "build_vocabulary remdups example_draws 0 [] =
     Inr \<lparr> corpus_of = [], vocabulary = [], word_to_index = Map.empty,
           index_to_word = Map.empty, draws_taken = 0 \<rparr>"
  by (simp add: build_vocabulary_def subsample_frequent_words_def relative_frequencies_def
        Counter_def dict_of_def Let_def)

subsection \<open>Negative sampling\<close>

lemma setup_probability:
  "map_of (sample_probability (sample_negative_setup corpus)) w =
     (if w \<in> set (concat corpus) then Some (spec_negative_probability corpus w) else None)"
proof -
  let ?ws = "concat corpus"
  let ?z = "sum_list (map (\<lambda>v. real v powr 0.75) (map snd (Counter ?ws)))"
  have z: "?z = (\<Sum>v \<in> set ?ws. real (count_list ?ws v) powr 0.75)"
    by (rule sum_list_Counter)
  have "map_of (sample_probability (sample_negative_setup corpus)) w =
        map_option (\<lambda>v. real v powr 0.75 / ?z) (map_of (Counter ?ws) w)"
    by (simp add: sample_negative_setup_def Let_def map_of_map)
  also have "\<dots> = (if w \<in> set ?ws then Some (real (count_list ?ws w) powr 0.75 / ?z) else None)"
    by (simp add: Counter_map_of)
  finally show ?thesis
    by (simp only: z spec_negative_probability_def)
qed

lemma setup_words:
  "words (sample_negative_setup corpus) = map fst (sample_probability (sample_negative_setup corpus))"
  by (simp add: sample_negative_setup_def Let_def comp_def case_prod_unfold)

lemma draws_suspended:
  "draws mn sample_size cs (Suspended s, calls) =
     (map (\<lambda>i. word_list_of (words s) (mn (calls + i) sample_size (map snd (sample_probability s))))
          [0 ..< length cs],
      Suspended s, calls + length cs)"
proof (induction cs arbitrary: calls)
  case Nil
  show ?case by simp
next
  case (Cons c cs)
  have u: "[0 ..< length (c # cs)] = 0 # map Suc [0 ..< length cs]"
    by (simp add: upt_conv_Cons map_Suc_upt del: upt_Suc)
  show ?case
    unfolding u
    by (simp add: sample_negative_next_def Let_def Cons.IH comp_def del: upt_Suc)
qed

lemma draws_created:
  "draws mn sample_size (corpus # later) (Created, calls) =
     (map (\<lambda>i. word_list_of (words (sample_negative_setup corpus))
                  (mn (calls + i) sample_size
                      (map snd (sample_probability (sample_negative_setup corpus)))))
          [0 ..< Suc (length later)],
      Suspended (sample_negative_setup corpus), calls + Suc (length later))"
proof -
  have u: "[0 ..< Suc (length later)] = 0 # map Suc [0 ..< length later]"
    by (simp add: upt_conv_Cons map_Suc_upt del: upt_Suc)
  show ?thesis
    unfolding u
    by (simp add: sample_negative_next_def Let_def draws_suspended comp_def del: upt_Suc)
qed

lemma notebook_sampler_eq:
  "notebook_sampler rnd corpus0 = Inr (sample_negative_setup (spec_subsample rnd 0 corpus0))"
  by (simp add: notebook_sampler_def subsample_result)

text \<open>
  C1, amended. A sampler computes its distribution once, at its first draw, from the
  value the global \<open>corpus\<close> has then, and every draw of the run, the first and the
  later ones, passes that same distribution to \<open>multinomial\<close>, whatever \<open>corpus\<close> has
  become meanwhile; the distribution gives each word of that corpus its count in it to
  the power 0.75 over the sum of these weights, and nothing to any other word. In the
  notebook that corpus is the output of the subsampler, not the corpus before
  subsampling.
\<close>

theorem sampler_distribution_once:
  "draws mn sample_size (corpus # later) (Created, calls) =
     (map (\<lambda>i. word_list_of (words (sample_negative_setup corpus))
                  (mn (calls + i) sample_size
                      (map snd (sample_probability (sample_negative_setup corpus)))))
          [0 ..< Suc (length later)],
      Suspended (sample_negative_setup corpus), calls + Suc (length later))
   \<and> map_of (sample_probability (sample_negative_setup corpus)) w =
       (if w \<in> set (concat corpus)
        then Some (real (count_list (concat corpus) w) powr 0.75 /
                   (\<Sum>v \<in> set (concat corpus). real (count_list (concat corpus) v) powr 0.75))
        else None)
   \<and> words (sample_negative_setup corpus) = map fst (sample_probability (sample_negative_setup corpus))
   \<and> notebook_sampler rnd corpus0 = Inr (sample_negative_setup (spec_subsample rnd 0 corpus0))"
  using draws_created [of mn sample_size corpus later calls] setup_probability [of corpus w]
    setup_words [of corpus] notebook_sampler_eq [of rnd corpus0]
  by (simp only: spec_negative_probability_def)

lemma keep_probability_half:
  "0 < keep_probability (1 / 2)" "\<not> 1 / 2 < keep_probability (1 / 2)"
proof -
  have s: "keep_probability (1 / 2) = 1 / 500 + 1 / sqrt 500"
    using keep_probability_split [of "1 / 2"] by simp
  have "(4::real)\<^sup>2 < 500" by simp
  then have "4 < sqrt 500" by (rule real_less_rsqrt)
  then have "1 / sqrt 500 < 1 / 4"
    by (simp add: frac_less2)
  moreover have "0 < 1 / sqrt 500" by simp
  ultimately show "0 < keep_probability (1 / 2)" "\<not> 1 / 2 < keep_probability (1 / 2)"
    unfolding s by linarith+
qed

lemma example_subsample: "spec_subsample example_draws 0 [[''a'', ''b'']] = [[''b'']]"
proof -
  have f: "relative_frequency [[''a'', ''b'']] ''a'' = 1 / 2"
          "relative_frequency [[''a'', ''b'']] ''b'' = 1 / 2"
    by (simp_all add: relative_frequency_def)
  have u: "[0 ..< length [[''a'', ''b'']]] = [0]" "[0 ..< 0 + length [''a'', ''b'']] = [0, 1]"
    by (simp_all add: upt_conv_Cons)
  have k: "(example_draws 0 < keep_probability (1 / 2)) = False"
          "(example_draws 1 < keep_probability (1 / 2)) = True"
          "(example_draws (Suc 0) < keep_probability (1 / 2)) = True"
    using keep_probability_half by (simp_all add: example_draws_def)
  show ?thesis
    unfolding spec_subsample_def spec_keep_document_def
    by (simp add: u f k)
qed

text \<open>
  C1, as stated, fails. On the corpus \<open>[["a","b"]]\<close> with the draws 0.5 and 0 the
  subsampler drops \<open>"a"\<close> and keeps \<open>"b"\<close>; the sampler then counts the words of
  \<open>[["b"]]\<close> and gives \<open>"b"\<close> the probability 1 and \<open>"a"\<close> none, where the counts of
  the corpus before subsampling give each of them 1/2.
\<close>

theorem sampler_after_subsampling_counterexample:
  "notebook_sampler example_draws [[''a'', ''b'']] = Inr (sample_negative_setup [[''b'']])
   \<and> map_of (sample_probability (sample_negative_setup [[''b'']])) ''b'' = Some 1
   \<and> map_of (sample_probability (sample_negative_setup [[''b'']])) ''a'' = None
   \<and> spec_negative_probability [[''a'', ''b'']] ''b'' = 1 / 2
   \<and> spec_negative_probability [[''a'', ''b'']] ''a'' = 1 / 2"
proof -
  have a: "notebook_sampler example_draws [[''a'', ''b'']] = Inr (sample_negative_setup [[''b'']])"
    by (simp only: notebook_sampler_eq example_subsample)
  have b: "map_of (sample_probability (sample_negative_setup [[''b'']])) ''b'' = Some 1"
    by (simp add: setup_probability spec_negative_probability_def)
  have c: "map_of (sample_probability (sample_negative_setup [[''b'']])) ''a'' = None"
    by (simp add: setup_probability)
  have d: "spec_negative_probability [[''a'', ''b'']] ''b'' = 1 / 2"
          "spec_negative_probability [[''a'', ''b'']] ''a'' = 1 / 2"
    by (simp_all add: spec_negative_probability_def)
  from a b c d show ?thesis by (intro conjI)
qed

subsection \<open>Batches\<close>

lemma lookup_all_ok:
  "set ws \<subseteq> dom w2i \<Longrightarrow> lookup_all w2i ws = Inr (map (\<lambda>w. the (w2i w)) ws)"
proof (induction ws)
  case Nil
  show ?case by simp
next
  case (Cons w ws)
  from Cons.prems obtain idx where "w2i w = Some idx" by auto
  moreover from Cons.prems have "set ws \<subseteq> dom w2i" by simp
  ultimately show ?case using Cons.IH by simp
qed

lemma rectangular_uniform:
  assumes "\<forall>row \<in> set rows. length row = k"
  shows "rectangular rows"
proof (cases rows)
  case Nil
  then show ?thesis by (simp add: rectangular_def)
next
  case (Cons r rs)
  then have "length (hd rows) = k" using assms by simp
  with assms show ?thesis by (simp add: rectangular_def list_all_iff)
qed

lemma emit_condition:
  assumes "0 < n"
  shows "((int i + 1) mod int n = 0 \<or> int i = int (length ys) - 1) \<longleftrightarrow>
         (Suc i mod n = 0 \<or> Suc i = length ys)"
proof -
  have "int i + 1 = int (Suc i)" by simp
  then have "(int i + 1) mod int n = int (Suc i mod n)"
    by (simp only: zmod_int)
  then have a: "(int i + 1) mod int n = 0 \<longleftrightarrow> Suc i mod n = 0"
    by (simp only: of_nat_eq_0_iff)
  have b: "int i = int (length ys) - 1 \<longleftrightarrow> Suc i = length ys"
    by linarith
  from a b show ?thesis by (simp only:)
qed

lemma batch_step:
  assumes n: "0 < n"
    and i: "ys ! i = (t, c, ns)"
    and toks: "tokens_of (ys ! i) \<subseteq> dom w2i"
    and rect: "\<forall>row \<in> set bn. length row = k"
    and len: "length ns = k"
  shows "batch_loop w2i (int n) ys (i # rest) (batches, bt, bc, bn) =
     (if Suc i mod n = 0 \<or> Suc i = length ys
      then batch_loop w2i (int n) ys rest
             (batches @ [(bt @ [the (w2i t)], bc @ [the (w2i c)],
                          bn @ [map (\<lambda>w. the (w2i w)) ns])], [], [], [])
      else batch_loop w2i (int n) ys rest
             (batches, bt @ [the (w2i t)], bc @ [the (w2i c)],
              bn @ [map (\<lambda>w. the (w2i w)) ns]))"
proof -
  from toks i have d: "t \<in> dom w2i" "c \<in> dom w2i" "set ns \<subseteq> dom w2i"
    by (simp_all add: tokens_of_def)
  from d obtain ti where ti: "w2i t = Some ti" by auto
  from d obtain ci where ci: "w2i c = Some ci" by auto
  have la: "lookup_all w2i ns = Inr (map (\<lambda>w. the (w2i w)) ns)"
    using d(3) by (rule lookup_all_ok)
  have "\<forall>row \<in> set (bn @ [map (\<lambda>w. the (w2i w)) ns]). length row = k"
    using rect len by simp
  then have "rectangular (bn @ [map (\<lambda>w. the (w2i w)) ns])"
    by (rule rectangular_uniform)
  then have t2: "tensor2 (bn @ [map (\<lambda>w. the (w2i w)) ns]) = Inr (bn @ [map (\<lambda>w. the (w2i w)) ns])"
    by (simp add: tensor2_def)
  have nz: "int n \<noteq> 0" using n by simp
  show ?thesis
    by (simp only: batch_loop.simps i prod.case ti ci la option.case sum.case Let_def
          nz if_False t2 emit_condition [OF n] option.sel)
qed

lemma zip3_snoc:
  assumes "length bc = length bt" and "length bn = length bt"
  shows "zip (bt @ [a]) (zip (bc @ [b]) (bn @ [c])) = zip bt (zip bc bn) @ [(a, b, c)]"
  using assms by simp

lemma batch_loop_run:
  assumes n: "0 < n"
    and toks: "\<forall>tuple \<in> set ys. tokens_of tuple \<subseteq> dom w2i"
    and uni: "\<forall>tuple \<in> set ys. length (snd (snd tuple)) = k"
  shows "i < length ys \<Longrightarrow> length bc = length bt \<Longrightarrow> length bn = length bt \<Longrightarrow>
     (\<forall>row \<in> set bn. length row = k) \<Longrightarrow> length bt = i mod n \<Longrightarrow>
     concat (map triples_of batches) @ zip bt (zip bc bn) = map (index_triple w2i) (take i ys) \<Longrightarrow>
     (\<forall>b \<in> set batches. batch_length b = n \<and> batch_ok b) \<Longrightarrow>
     \<exists>batches'. batch_loop w2i (int n) ys [i ..< length ys] (batches, bt, bc, bn) =
                  Inr (batches', [], [], [])
        \<and> concat (map triples_of batches') = map (index_triple w2i) ys
        \<and> batches' \<noteq> [] \<and> (\<forall>b \<in> set (butlast batches'). batch_length b = n)
        \<and> (\<forall>b \<in> set batches'. batch_ok b)
        \<and> 1 \<le> batch_length (last batches') \<and> batch_length (last batches') \<le> n"
proof (induction "length ys - i" arbitrary: i batches bt bc bn)
  case 0
  then show ?case by simp
next
  case (Suc m)
  note i = \<open>i < length ys\<close>
  note lc = \<open>length bc = length bt\<close>
  note ln = \<open>length bn = length bt\<close>
  note rect = \<open>\<forall>row \<in> set bn. length row = k\<close>
  note pend = \<open>length bt = i mod n\<close>
  note cons = \<open>concat (map triples_of batches) @ zip bt (zip bc bn) =
                map (index_triple w2i) (take i ys)\<close>
  note full = \<open>\<forall>b \<in> set batches. batch_length b = n \<and> batch_ok b\<close>
  obtain t c ns where yi: "ys ! i = (t, c, ns)" by (cases "ys ! i")
  from i have mem: "ys ! i \<in> set ys" by simp
  from toks mem have tk: "tokens_of (ys ! i) \<subseteq> dom w2i" by blast
  from uni mem have "length (snd (snd (ys ! i))) = k" by blast
  then have lns: "length ns = k" by (simp add: yi)
  let ?ti = "the (w2i t)" and ?ci = "the (w2i c)" and ?ni = "map (\<lambda>w. the (w2i w)) ns"
  let ?b = "(bt @ [?ti], bc @ [?ci], bn @ [?ni])"
  have up: "[i ..< length ys] = i # [Suc i ..< length ys]"
    using i by (rule upt_conv_Cons)
  note step = batch_step [OF n yi tk rect lns, of "[Suc i ..< length ys]" batches bt bc]
  have it: "index_triple w2i (ys ! i) = (?ti, ?ci, ?ni)"
    by (simp add: yi index_triple_def)
  have tk': "take (Suc i) ys = take i ys @ [ys ! i]"
    using i by (rule take_Suc_conv_app_nth)
  have cons': "concat (map triples_of batches) @ zip (bt @ [?ti]) (zip (bc @ [?ci]) (bn @ [?ni])) =
               map (index_triple w2i) (take (Suc i) ys)"
    unfolding zip3_snoc [OF lc ln] tk' using cons it by simp
  have rect': "\<forall>row \<in> set (bn @ [?ni]). length row = k"
    using rect lns by simp
  have ok_b: "batch_ok ?b"
    using lc ln rectangular_uniform [OF rect'] by (simp add: batch_ok_def)
  have tr_b: "triples_of ?b = zip (bt @ [?ti]) (zip (bc @ [?ci]) (bn @ [?ni]))"
    by (simp add: triples_of_def)
  have len_b: "batch_length ?b = Suc (i mod n)"
    using pend by (simp add: batch_length_def)
  have modn: "i mod n < n" using n by simp
  have cons_b: "concat (map triples_of (batches @ [?b])) = map (index_triple w2i) (take (Suc i) ys)"
    using cons' by (simp add: tr_b)
  show ?case
  proof (cases "Suc i = length ys")
    case True
    have r: "batch_loop w2i (int n) ys [i ..< length ys] (batches, bt, bc, bn) =
             Inr (batches @ [?b], [], [], [])"
      unfolding up step using True by simp
    have all: "concat (map triples_of (batches @ [?b])) = map (index_triple w2i) ys"
      using cons_b True by simp
    have bl: "\<forall>b \<in> set (butlast (batches @ [?b])). batch_length b = n"
      using full by simp
    have oks: "\<forall>b \<in> set (batches @ [?b]). batch_ok b"
      using full ok_b by auto
    have l1: "1 \<le> batch_length (last (batches @ [?b]))"
      by (simp add: len_b)
    have l2: "batch_length (last (batches @ [?b])) \<le> n"
      using modn by (simp add: len_b)
    from r all bl oks l1 l2 show ?thesis by blast
  next
    case False
    with i have i': "Suc i < length ys" by simp
    from Suc.hyps(2) have m: "m = length ys - Suc i" by simp
    show ?thesis
    proof (cases "Suc i mod n = 0")
      case True
      then have sn: "Suc (i mod n) = n"
        by (simp add: mod_Suc split: if_splits)
      have r: "batch_loop w2i (int n) ys [i ..< length ys] (batches, bt, bc, bn) =
               batch_loop w2i (int n) ys [Suc i ..< length ys] (batches @ [?b], [], [], [])"
        unfolding up step using True by simp
      have full': "\<forall>b \<in> set (batches @ [?b]). batch_length b = n \<and> batch_ok b"
        using full ok_b len_b sn by auto
      have cons'': "concat (map triples_of (batches @ [?b])) @ zip [] (zip [] []) =
                    map (index_triple w2i) (take (Suc i) ys)"
        using cons_b by simp
      have e0: "length ([] :: nat list) = Suc i mod n" using True by simp
      have e1: "length ([] :: nat list) = length ([] :: nat list)" by simp
      have e2: "length ([] :: nat list list) = length ([] :: nat list)" by simp
      have e3: "\<forall>row \<in> set ([] :: nat list list). length row = k" by simp
      from Suc.hyps(1) [OF m i' e1 e2 e3 e0 cons'' full'] show ?thesis
        unfolding r .
    next
      case False
      then have sn: "Suc (i mod n) = Suc i mod n"
        by (simp add: mod_Suc split: if_splits)
      have r: "batch_loop w2i (int n) ys [i ..< length ys] (batches, bt, bc, bn) =
               batch_loop w2i (int n) ys [Suc i ..< length ys]
                 (batches, bt @ [?ti], bc @ [?ci], bn @ [?ni])"
        unfolding up step using False \<open>Suc i \<noteq> length ys\<close> by simp
      have e0: "length (bt @ [?ti]) = Suc i mod n" using pend sn by simp
      have e1: "length (bc @ [?ci]) = length (bt @ [?ti])" using lc by simp
      have e2: "length (bn @ [?ni]) = length (bt @ [?ti])" using ln by simp
      from Suc.hyps(1) [OF m i' e1 e2 rect' e0 cons' full] show ?thesis
        unfolding r .
    qed
  qed
qed

text \<open>
  C10, amended. For every non-empty list of (target, context, negatives) tuples whose
  tokens are all in the vocabulary and whose lists of negatives all have the same
  length, every positive batch size and every permutation that the shuffle picks,
  \<open>get_batches\<close> returns: the contents of its batches, one after the other, are the
  index triples of the shuffled list, so of a permutation of the input, each tuple
  once; there is at least one batch, every batch has as many targets as contexts and
  rows of negatives, every batch but the last has exactly \<open>batch_size\<close> triples, and
  the last has between 1 and \<open>batch_size\<close>.
\<close>

theorem get_batches_partition:
  assumes ne: "tuples \<noteq> []"
    and bs: "0 < batch_size"
    and sh: "mset (shuffle tuples) = mset tuples"
    and toks: "\<forall>tuple \<in> set tuples. tokens_of tuple \<subseteq> dom w2i"
    and uni: "\<forall>tuple \<in> set tuples. length (snd (snd tuple)) = k"
  shows "\<exists>batches. get_batches shuffle w2i tuples batch_size = Inr (batches, shuffle tuples)
     \<and> concat (map triples_of batches) = map (index_triple w2i) (shuffle tuples)
     \<and> mset (concat (map triples_of batches)) = image_mset (index_triple w2i) (mset tuples)
     \<and> batches \<noteq> [] \<and> (\<forall>b \<in> set batches. batch_ok b)
     \<and> (\<forall>b \<in> set (butlast batches). batch_length b = nat batch_size)
     \<and> 1 \<le> batch_length (last batches) \<and> batch_length (last batches) \<le> nat batch_size"
proof -
  let ?ys = "shuffle tuples"
  let ?n = "nat batch_size"
  from bs have n: "0 < ?n" and bn: "int ?n = batch_size" by simp_all
  from sh have st: "set ?ys = set tuples" by (rule mset_eq_setD)
  from sh have "length ?ys = length tuples" by (rule mset_eq_length)
  with ne have pos: "0 < length ?ys" by simp
  from toks st have toks': "\<forall>tuple \<in> set ?ys. tokens_of tuple \<subseteq> dom w2i" by simp
  from uni st have uni': "\<forall>tuple \<in> set ?ys. length (snd (snd tuple)) = k" by simp
  have e1: "length ([] :: nat list) = length ([] :: nat list)" by simp
  have e2: "length ([] :: nat list list) = length ([] :: nat list)" by simp
  have e3: "\<forall>row \<in> set ([] :: nat list list). length row = k" by simp
  have e0: "length ([] :: nat list) = 0 mod ?n" by simp
  have c0: "concat (map triples_of []) @ zip [] (zip [] []) = map (index_triple w2i) (take 0 ?ys)"
    by simp
  have f0: "\<forall>b \<in> set ([] :: batch list). batch_length b = ?n \<and> batch_ok b" by simp
  from batch_loop_run [OF n toks' uni' pos e1 e2 e3 e0 c0 f0]
  obtain batches where
    r: "batch_loop w2i (int ?n) ?ys [0 ..< length ?ys] ([], [], [], []) = Inr (batches, [], [], [])"
    and c: "concat (map triples_of batches) = map (index_triple w2i) ?ys"
    and p: "batches \<noteq> []" "\<forall>b \<in> set (butlast batches). batch_length b = ?n"
       "\<forall>b \<in> set batches. batch_ok b"
       "1 \<le> batch_length (last batches)" "batch_length (last batches) \<le> ?n"
    by blast
  have g: "get_batches shuffle w2i tuples batch_size = Inr (batches, ?ys)"
    using r unfolding bn by (simp add: get_batches_def Let_def)
  have "mset (map (index_triple w2i) ?ys) = image_mset (index_triple w2i) (mset tuples)"
    using sh by (simp only: mset_map)
  with c have ms: "mset (concat (map triples_of batches)) = image_mset (index_triple w2i) (mset tuples)"
    by (simp only:)
  from g c ms p show ?thesis by blast
qed

lemma example_tuples_run:
  "get_batches rev example_word_to_index example_tuples 2 =
     Inr ([([0, 1], [1, 0], [[1], [1]]), ([0], [1], [[0]])], rev example_tuples)"
proof -
  have u: "[0 ..< length (rev example_tuples)] = [0, 1, 2]"
    by (simp add: example_tuples_def upt_conv_Cons)
  show ?thesis
    unfolding get_batches_def Let_def u
    by (simp add: example_tuples_def example_word_to_index_def tensor2_def rectangular_def)
qed

theorem get_batches_partition_witness:
  "example_tuples \<noteq> [] \<and> (0::int) < 2 \<and> mset (rev example_tuples) = mset example_tuples
   \<and> get_batches rev example_word_to_index example_tuples 2 =
       Inr ([([0, 1], [1, 0], [[1], [1]]), ([0], [1], [[0]])], rev example_tuples)
   \<and> (\<exists>batches. get_batches rev example_word_to_index example_tuples 2 =
                    Inr (batches, rev example_tuples)
     \<and> concat (map triples_of batches) = map (index_triple example_word_to_index) (rev example_tuples)
     \<and> mset (concat (map triples_of batches)) =
         image_mset (index_triple example_word_to_index) (mset example_tuples)
     \<and> batches \<noteq> [] \<and> (\<forall>b \<in> set batches. batch_ok b)
     \<and> (\<forall>b \<in> set (butlast batches). batch_length b = nat 2)
     \<and> 1 \<le> batch_length (last batches) \<and> batch_length (last batches) \<le> nat 2)"
proof -
  have ne: "example_tuples \<noteq> []" by (simp add: example_tuples_def)
  have bs: "(0::int) < 2" by simp
  have sh: "mset (rev example_tuples) = mset example_tuples" by simp
  have toks: "\<forall>tuple \<in> set example_tuples. tokens_of tuple \<subseteq> dom example_word_to_index"
    by (simp add: example_tuples_def tokens_of_def example_word_to_index_def)
  have uni: "\<forall>tuple \<in> set example_tuples. length (snd (snd tuple)) = 1"
    by (simp add: example_tuples_def)
  note t = get_batches_partition [where shuffle = rev and tuples = example_tuples
      and batch_size = 2 and ?w2i = example_word_to_index and k = 1, OF ne bs sh toks uni]
  from ne bs sh example_tuples_run t show ?thesis by (intro conjI)
qed

text \<open>
  C10, as stated, fails: two tuples of one batch whose lists of negatives have
  different lengths, here none and one, do not make a tensor, and \<open>get_batches\<close>
  raises instead of returning batches.
\<close>

theorem get_batches_ragged_counterexample:
  "get_batches id example_word_to_index ragged_tuples 2 = Inl ValueError"
proof -
  have u: "[0 ..< length (id ragged_tuples)] = [0, 1]"
    by (simp add: ragged_tuples_def upt_conv_Cons)
  show ?thesis
    unfolding get_batches_def Let_def u
    by (simp add: ragged_tuples_def example_word_to_index_def tensor2_def rectangular_def)
qed

end
